theory Spec2Isabelle
  imports Main
begin

section \<open>Data model of scss.c\<close>

text \<open>The enumeration \<open>cssKind\<close> (\<open>K_NONE = -1\<close> is declared but never passed).\<close>

datatype cssKind = K_NONE | K_CLASS | K_SELECTOR | K_ID

text \<open>The enumeration \<open>ScssParserState\<close>, in the order of the source.\<close>

datatype ScssParserState =
    P_STATE_NONE
  | P_STATE_IN_COMMENT
  | P_STATE_IN_SINGLE_STRING
  | P_STATE_IN_DOUBLE_STRING
  | P_STATE_IN_DEFINITION
  | P_STATE_IN_MEDIA
  | P_STATE_IN_IMPORT
  | P_STATE_IN_NAMESPACE
  | P_STATE_IN_PAGE
  | P_STATE_IN_FONTFACE
  | P_STATE_AT_END

text \<open>
  A line handed out by the line source is a C string: the bytes of the line followed by a
  terminating NUL. A pointer into it is an index; index \<open>length buf\<close> is the terminator.
  A read at an index outside \<open>0 .. length buf\<close> does not read the line: what it finds is
  not determined by the input (and before the buffer it is undefined behaviour in C). Such a
  read is a \<open>fault\<close> value here, and the function that makes it returns the fault together
  with the world as it was at that moment. The pointer \<open>NULL\<close> is \<open>None\<close>.
\<close>

datatype fault = ReadBeforeStart | ReadPastEnd

abbreviation NUL :: char where
  "NUL \<equiv> CHR 0x00"

definition peek :: "string \<Rightarrow> nat \<Rightarrow> fault + char" where
  "peek buf i =
     (if i < length buf then Inr (buf ! i)
      else if i = length buf then Inr NUL
      else Inl ReadPastEnd)"

text \<open>The expression \<open>*(line-1)\<close>.\<close>

definition peekPrev :: "string \<Rightarrow> nat \<Rightarrow> fault + char" where
  "peekPrev buf i = (if i = 0 then Inl ReadBeforeStart else peek buf (i - 1))"

type_synonym tag = "cssKind \<times> string"

text \<open>
  The state outside the parser: the buffer of the line read last (\<open>cur\<close>, without its
  terminator), the lines the line source has not handed out yet (\<open>pending\<close>) and the tags
  given to the tag sink so far (\<open>tags\<close>). A line is a C string and holds no NUL byte.
\<close>

record world =
  cur :: string
  pending :: "string list"
  tags :: "tag list"

subsection \<open>Library functions used by the parser\<close>

text \<open>\<open>isspace\<close> and \<open>isalnum\<close> of \<open>ctype.h\<close> in the C locale.\<close>

definition isspace :: "char \<Rightarrow> bool" where
  "isspace c = (c = CHR '' '' \<or> c = CHR 0x09 \<or> c = CHR 0x0A \<or> c = CHR 0x0B
                \<or> c = CHR 0x0C \<or> c = CHR 0x0D)"

definition isalnum :: "char \<Rightarrow> bool" where
  "isalnum c =
     (let n = (of_char c :: nat)
      in (48 \<le> n \<and> n \<le> 57) \<or> (65 \<le> n \<and> n \<le> 90) \<or> (97 \<le> n \<and> n \<le> 122))"

text \<open>
  Modelled from the spec: \<open>fileReadLine\<close> of read.c, which is not part of the sources. The
  line source hands out the next physical line, or signals the end of input with \<open>NULL\<close>.
  The returned pointer is to the start of the line buffer.
\<close>

definition fileReadLine :: "world \<Rightarrow> nat option \<times> world" where
  "fileReadLine w =
     (case pending w of
        [] \<Rightarrow> (None, w)
      | l # ls \<Rightarrow> (Some 0, w\<lparr>cur := l, pending := ls\<rparr>))"

text \<open>
  Modelled from the spec: \<open>vStringPut\<close> of vstring.h, which is not part of the sources. It
  appends one character to the buffer.
\<close>

definition vStringPut :: "string \<Rightarrow> char \<Rightarrow> string" where
  "vStringPut name c = name @ [c]"

text \<open>
  Modelled from the spec: \<open>vStringStripTrailing\<close> of vstring.c, which is not part of the
  sources. It removes the whitespace at the end of the buffer.
\<close>

definition vStringStripTrailing :: "string \<Rightarrow> string" where
  "vStringStripTrailing name = rev (dropWhile isspace (rev name))"

text \<open>
  Modelled from the spec: \<open>makeSimpleTag\<close> of parse.c, which is not part of the sources. The
  tag sink receives the name and the kind, once per call.
\<close>

definition makeSimpleTag :: "string \<Rightarrow> cssKind \<Rightarrow> world \<Rightarrow> world" where
  "makeSimpleTag name kind w = w\<lparr>tags := tags w @ [(kind, name)]\<rparr>"

text \<open>
  \<open>strcmp (aux->buffer, kw) == 0\<close>: the C string in the buffer, which ends at the first
  NUL, is the keyword.
\<close>

definition strcmp_eq :: "string \<Rightarrow> string \<Rightarrow> bool" where
  "strcmp_eq buffer kw = (takeWhile (\<lambda>c. c \<noteq> NUL) buffer = kw)"

section \<open>The parser\<close>

subsection \<open>makeScssSimpleTag\<close>

text \<open>
  The buffer is local to one call of \<open>parseScssDeclaration\<close> and every call of
  \<open>makeScssSimpleTag\<close> deletes it, so clearing and deleting it leave nothing to observe.
\<close>

definition makeScssSimpleTag :: "string \<Rightarrow> cssKind \<Rightarrow> world \<Rightarrow> world" where
  "makeScssSimpleTag name kind w =
     makeSimpleTag (if kind = K_CLASS then vStringStripTrailing name else name) kind w"

subsection \<open>isScssDeclarationAllowedChar\<close>

definition isScssDeclarationAllowedChar :: "char \<Rightarrow> bool" where
  "isScssDeclarationAllowedChar c =
     (isalnum c \<or> isspace c \<or> c = CHR ''_'' \<or> c = CHR ''-'' \<or> c = CHR ''+''
      \<or> c = CHR ''>'' \<or> c = CHR ''{'' \<or> c = CHR ''.'' \<or> c = CHR '','' \<or> c = CHR '':''
      \<or> c = CHR ''*'' \<or> c = CHR ''#'')"

subsection \<open>parseScssDeclaration\<close>

text \<open>
  The measure of the loops: the characters left in the current buffer and in the lines still
  to come.
\<close>

definition remaining :: "world \<Rightarrow> nat \<Rightarrow> nat" where
  "remaining w p = sum_list (map (\<lambda>l. length l + 3) (pending w)) + (length (cur w) + 2 - p)"

text \<open>
  The \<open>while\<close> loop of \<open>parseScssDeclaration\<close>, with the buffer \<open>name\<close> and the pointer
  \<open>cp\<close> as arguments. The result is the returned state and the pointer stored in
  \<open>*position\<close>.
\<close>

function declLoop ::
  "world \<Rightarrow> string \<Rightarrow> nat \<Rightarrow> cssKind \<Rightarrow> (fault + ScssParserState \<times> nat option) \<times> world"
where
  "declLoop w name cp kind =
     (case peek (cur w) cp of
        Inl f \<Rightarrow> (Inl f, w)
      | Inr c \<Rightarrow>
          if isScssDeclarationAllowedChar c \<or> c = NUL then
            if c = NUL then
              (case fileReadLine w of
                 (None, w') \<Rightarrow> (Inr (P_STATE_AT_END, None), makeScssSimpleTag name kind w')
               | (Some cp', w') \<Rightarrow>
                   (case peek (cur w') cp' of
                      Inl f \<Rightarrow> (Inl f, w')
                    | Inr c' \<Rightarrow> declLoop w' (vStringPut name c') (cp' + 1) kind))
            else if c = CHR '','' then
              (Inr (P_STATE_NONE, Some (cp + 1)), makeScssSimpleTag name kind w)
            else if c = CHR ''{'' then
              (Inr (P_STATE_IN_DEFINITION, Some (cp + 1)), makeScssSimpleTag name kind w)
            else declLoop w (vStringPut name c) (cp + 1) kind
          else (Inr (P_STATE_NONE, Some cp), makeScssSimpleTag name kind w))"
  by pat_completeness auto
termination
proof (relation "measure (\<lambda>(w, name, cp, kind). remaining w cp)", goal_cases)
  case 1
  show ?case by simp
next
  case 2
  then show ?case
    by (auto simp: remaining_def fileReadLine_def split: list.splits)
next
  case (3 w name cp kind c)
  then have "cp < length (cur w)"
    by (auto simp: peek_def split: if_splits)
  then show ?case
    by (simp add: remaining_def)
qed

declare declLoop.simps [simp del]

definition parseScssDeclaration ::
  "world \<Rightarrow> nat \<Rightarrow> cssKind \<Rightarrow> (fault + ScssParserState \<times> nat option) \<times> world"
where
  "parseScssDeclaration w position kind = declLoop w [] position kind"

lemma peek_in_line: "peek buf i = Inr c \<Longrightarrow> c \<noteq> NUL \<Longrightarrow> i < length buf"
  by (auto simp: peek_def split: if_splits)

lemma peek_in_buffer: "peek buf i = Inr c \<Longrightarrow> i \<le> length buf"
  by (auto simp: peek_def split: if_splits)

lemma remaining_makeScssSimpleTag [simp]:
  "remaining (makeScssSimpleTag name kind w) p = remaining w p"
  by (simp add: remaining_def makeScssSimpleTag_def makeSimpleTag_def)

lemma cur_makeScssSimpleTag [simp]: "cur (makeScssSimpleTag name kind w) = cur w"
  by (simp add: makeScssSimpleTag_def makeSimpleTag_def)

lemma pending_makeScssSimpleTag [simp]: "pending (makeScssSimpleTag name kind w) = pending w"
  by (simp add: makeScssSimpleTag_def makeSimpleTag_def)

lemma peek_0: "peek buf 0 = Inr (case buf of [] \<Rightarrow> NUL | c # _ \<Rightarrow> c)"
  by (cases buf) (simp_all add: peek_def)

lemma declLoop_fault:
  "peek (cur w) cp = Inl f \<Longrightarrow> declLoop w name cp kind = (Inl f, w)"
  by (simp add: declLoop.simps [of w name cp])

lemma declLoop_eof:
  "peek (cur w) cp = Inr NUL \<Longrightarrow> pending w = [] \<Longrightarrow>
   declLoop w name cp kind = (Inr (P_STATE_AT_END, None), makeScssSimpleTag name kind w)"
  by (simp add: declLoop.simps [of w name cp] fileReadLine_def)

lemma declLoop_nextline:
  "peek (cur w) cp = Inr NUL \<Longrightarrow> pending w = l # ls \<Longrightarrow>
   declLoop w name cp kind =
     declLoop (w\<lparr>cur := l, pending := ls\<rparr>)
       (vStringPut name (case l of [] \<Rightarrow> NUL | c # _ \<Rightarrow> c)) 1 kind"
  by (simp add: declLoop.simps [of w name cp] fileReadLine_def peek_0)

lemma declLoop_comma:
  "peek (cur w) cp = Inr (CHR '','') \<Longrightarrow>
   declLoop w name cp kind = (Inr (P_STATE_NONE, Some (cp + 1)), makeScssSimpleTag name kind w)"
  by (simp add: declLoop.simps [of w name cp] isScssDeclarationAllowedChar_def)

lemma declLoop_brace:
  "peek (cur w) cp = Inr (CHR ''{'') \<Longrightarrow>
   declLoop w name cp kind =
     (Inr (P_STATE_IN_DEFINITION, Some (cp + 1)), makeScssSimpleTag name kind w)"
  by (simp add: declLoop.simps [of w name cp] isScssDeclarationAllowedChar_def)

lemma declLoop_stop:
  "peek (cur w) cp = Inr c \<Longrightarrow> \<not> isScssDeclarationAllowedChar c \<Longrightarrow> c \<noteq> NUL \<Longrightarrow>
   declLoop w name cp kind = (Inr (P_STATE_NONE, Some cp), makeScssSimpleTag name kind w)"
  by (simp add: declLoop.simps [of w name cp])

lemma declLoop_step:
  "peek (cur w) cp = Inr c \<Longrightarrow> isScssDeclarationAllowedChar c \<Longrightarrow> c \<noteq> NUL \<Longrightarrow>
   c \<noteq> CHR '','' \<Longrightarrow> c \<noteq> CHR ''{'' \<Longrightarrow>
   declLoop w name cp kind = declLoop w (vStringPut name c) (cp + 1) kind"
  by (simp add: declLoop.simps [of w name cp])

lemma declLoop_cases_induct [case_names fault eof nextline comma brace stop step]:
  fixes P :: "world \<Rightarrow> string \<Rightarrow> nat \<Rightarrow> cssKind \<Rightarrow> bool"
  assumes "\<And>w name cp kind f. peek (cur w) cp = Inl f \<Longrightarrow> P w name cp kind"
    and "\<And>w name cp kind. peek (cur w) cp = Inr NUL \<Longrightarrow> pending w = [] \<Longrightarrow> P w name cp kind"
    and "\<And>w name cp kind l ls. peek (cur w) cp = Inr NUL \<Longrightarrow> pending w = l # ls \<Longrightarrow>
           P (w\<lparr>cur := l, pending := ls\<rparr>)
             (vStringPut name (case l of [] \<Rightarrow> NUL | c # _ \<Rightarrow> c)) 1 kind \<Longrightarrow>
           P w name cp kind"
    and "\<And>w name cp kind. peek (cur w) cp = Inr (CHR '','') \<Longrightarrow> P w name cp kind"
    and "\<And>w name cp kind. peek (cur w) cp = Inr (CHR ''{'') \<Longrightarrow> P w name cp kind"
    and "\<And>w name cp kind c. peek (cur w) cp = Inr c \<Longrightarrow> \<not> isScssDeclarationAllowedChar c \<Longrightarrow>
           c \<noteq> NUL \<Longrightarrow> P w name cp kind"
    and "\<And>w name cp kind c. peek (cur w) cp = Inr c \<Longrightarrow> isScssDeclarationAllowedChar c \<Longrightarrow>
           c \<noteq> NUL \<Longrightarrow> c \<noteq> CHR '','' \<Longrightarrow> c \<noteq> CHR ''{'' \<Longrightarrow>
           P w (vStringPut name c) (cp + 1) kind \<Longrightarrow> P w name cp kind"
  shows "P w name cp kind"
proof (induction w name cp kind rule: declLoop.induct)
  case (1 w name cp kind)
  show ?case
  proof (cases "peek (cur w) cp")
    case (Inl f)
    then show ?thesis by (rule assms(1))
  next
    case (Inr c)
    note c = this
    show ?thesis
    proof (cases "c = NUL")
      case True
      show ?thesis
      proof (cases "pending w")
        case Nil
        with c True show ?thesis by (simp add: assms(2))
      next
        case (Cons l ls)
        have frl: "fileReadLine w = (Some 0, w\<lparr>cur := l, pending := ls\<rparr>)"
          by (simp add: fileReadLine_def Cons)
        have "P (w\<lparr>cur := l, pending := ls\<rparr>)
                (vStringPut name (case l of [] \<Rightarrow> NUL | c # _ \<Rightarrow> c)) (0 + 1) kind"
          by (rule "1.IH"(1) [OF c _ True frl [symmetric] refl]) (simp_all add: True peek_0)
        with c True Cons show ?thesis by (simp add: assms(3))
      qed
    next
      case False
      show ?thesis
      proof (cases "isScssDeclarationAllowedChar c")
        case allowed: True
        show ?thesis
        proof (cases "c = CHR '','' \<or> c = CHR ''{''")
          case True
          with c show ?thesis using assms(4,5) by auto
        next
          case other: False
          have "P w (vStringPut name c) (cp + 1) kind"
            using "1.IH"(2) [OF c _ False] allowed other by simp
          with c allowed False other show ?thesis by (simp add: assms(7))
        qed
      next
        case False
        with c \<open>c \<noteq> NUL\<close> show ?thesis by (simp add: assms(6))
      qed
    qed
  qed
qed

lemma declLoop_pending:
  "declLoop w name cp kind = (r, w') \<Longrightarrow> length (pending w') \<le> length (pending w)"
  by (induction w name cp kind rule: declLoop_cases_induct)
     (auto simp: declLoop_fault declLoop_eof declLoop_nextline declLoop_comma declLoop_brace
        declLoop_stop declLoop_step)

lemma declLoop_remaining:
  "declLoop w name cp kind = (Inr (st, Some p), w') \<Longrightarrow>
     p \<le> length (cur w') \<and> remaining w' p \<le> remaining w cp"
proof (induction w name cp kind rule: declLoop_cases_induct)
  case (nextline w name cp kind l ls)
  then have "p \<le> length (cur w') \<and> remaining w' p \<le> remaining (w\<lparr>cur := l, pending := ls\<rparr>) 1"
    by (simp add: declLoop_nextline)
  moreover have "remaining (w\<lparr>cur := l, pending := ls\<rparr>) 1 \<le> remaining w cp"
    using nextline(2) by (simp add: remaining_def)
  ultimately show ?case by simp
next
  case (step w name cp kind c)
  then have "p \<le> length (cur w') \<and> remaining w' p \<le> remaining w (cp + 1)"
    by (simp add: declLoop_step)
  then show ?case unfolding remaining_def by arith
qed (auto simp: declLoop_fault declLoop_eof declLoop_comma declLoop_brace declLoop_stop
       remaining_def dest: peek_in_line peek_in_buffer)

subsection \<open>parseScssLine\<close>

text \<open>The loop \<open>while (isspace ((int) *line)) ++line;\<close>.\<close>

function skipSpace :: "string \<Rightarrow> nat \<Rightarrow> fault + nat" where
  "skipSpace buf line =
     (case peek buf line of
        Inl f \<Rightarrow> Inl f
      | Inr c \<Rightarrow> if isspace c then skipSpace buf (line + 1) else Inr line)"
  by pat_completeness auto
termination
proof (relation "measure (\<lambda>(buf, line). length buf - line)", goal_cases)
  case 1
  show ?case by simp
next
  case (2 buf line c)
  then have "line < length buf"
    by (auto simp: peek_def isspace_def split: if_splits)
  then show ?case by simp
qed

declare skipSpace.simps [simp del]

text \<open>
  The loop \<open>while (!isspace ((int) *line)) { vStringPut (aux, (int) *line); ++line; }\<close>
  that reads the keyword of an at-rule. The result is the buffer \<open>aux\<close> and the pointer.
\<close>

function readKeyword :: "string \<Rightarrow> string \<Rightarrow> nat \<Rightarrow> fault + string \<times> nat" where
  "readKeyword buf aux line =
     (case peek buf line of
        Inl f \<Rightarrow> Inl f
      | Inr c \<Rightarrow>
          if \<not> isspace c then readKeyword buf (vStringPut aux c) (line + 1)
          else Inr (aux, line))"
  by pat_completeness auto
termination
proof (relation "measure (\<lambda>(buf, aux, line). length buf + 1 - line)", goal_cases)
  case 1
  show ?case by simp
next
  case (2 buf aux line c)
  then have "line \<le> length buf" by (simp add: peek_in_buffer)
  then show ?case by simp
qed

declare readKeyword.simps [simp del]

text \<open>
  The two loops \<open>while (*line != stop) { if (*line == '\0') break; ++line; }\<close>, with
  \<open>stop\<close> the character \<open>{\<close> in state \<open>P_STATE_IN_MEDIA\<close> and \<open>;\<close> in the states
  \<open>P_STATE_IN_IMPORT\<close> and \<open>P_STATE_IN_NAMESPACE\<close>.
\<close>

function skipTo :: "char \<Rightarrow> string \<Rightarrow> nat \<Rightarrow> fault + nat" where
  "skipTo stop buf line =
     (case peek buf line of
        Inl f \<Rightarrow> Inl f
      | Inr c \<Rightarrow>
          if c \<noteq> stop then (if c = NUL then Inr line else skipTo stop buf (line + 1))
          else Inr line)"
  by pat_completeness auto
termination
proof (relation "measure (\<lambda>(stop, buf, line). length buf - line)", goal_cases)
  case 1
  show ?case by simp
next
  case (2 stop buf line c)
  then have "line < length buf" by (simp add: peek_in_line)
  then show ?case by simp
qed

declare skipTo.simps [simp del]

text \<open>The chain of \<open>strcmp\<close> tests on the keyword; no match leaves the state as it is.\<close>

definition directive :: "string \<Rightarrow> ScssParserState \<Rightarrow> ScssParserState" where
  "directive aux state =
     (if strcmp_eq aux ''media'' then P_STATE_IN_MEDIA
      else if strcmp_eq aux ''import'' then P_STATE_IN_IMPORT
      else if strcmp_eq aux ''namespace'' then P_STATE_IN_NAMESPACE
      else if strcmp_eq aux ''page'' then P_STATE_IN_PAGE
      else if strcmp_eq aux ''font-face'' then P_STATE_IN_FONTFACE
      else state)"

text \<open>
  How one pass through the \<open>switch\<close> ends: with \<open>break\<close>, leaving the variables \<open>state\<close>
  and \<open>line\<close>, or with \<open>return state\<close>.
\<close>

datatype step = Break ScssParserState "nat option" | Return ScssParserState

definition callDeclaration ::
  "(fault + ScssParserState \<times> nat option) \<times> world \<Rightarrow> (fault + step) \<times> world"
where
  "callDeclaration r =
     (case r of
        (Inl f, w') \<Rightarrow> (Inl f, w')
      | (Inr (st, position), w') \<Rightarrow> (Inr (Break st position), w'))"

text \<open>The case \<open>P_STATE_NONE\<close>.\<close>

definition caseNone :: "world \<Rightarrow> nat \<Rightarrow> ScssParserState \<Rightarrow> (fault + step) \<times> world" where
  "caseNone w line state =
     (case peek (cur w) line of
        Inl f \<Rightarrow> (Inl f, w)
      | Inr c \<Rightarrow>
          if isalnum c then callDeclaration (parseScssDeclaration w line K_SELECTOR)
          else if c = CHR ''.'' then callDeclaration (parseScssDeclaration w line K_CLASS)
          else if c = CHR ''#'' then callDeclaration (parseScssDeclaration w line K_ID)
          else if c = CHR ''@'' then
            (case readKeyword (cur w) [] (line + 1) of
               Inl f \<Rightarrow> (Inl f, w)
             | Inr (aux, line') \<Rightarrow> (Inr (Break (directive aux state) (Some line')), w))
          else if c = CHR ''*'' then
            (case peekPrev (cur w) line of
               Inl f \<Rightarrow> (Inl f, w)
             | Inr b \<Rightarrow>
                 (Inr (Break (if b = CHR ''/'' then P_STATE_IN_COMMENT else state) (Some line)), w))
          else (Inr (Break state (Some line)), w))"

text \<open>
  The case \<open>P_STATE_IN_COMMENT\<close>: the test \<open>*line == '/' && *(line-1) == '*'\<close>, where
  \<open>&&\<close> reads \<open>*(line-1)\<close> only when the first comparison holds.
\<close>

definition caseComment :: "world \<Rightarrow> nat \<Rightarrow> ScssParserState \<Rightarrow> (fault + step) \<times> world" where
  "caseComment w line state =
     (case peek (cur w) line of
        Inl f \<Rightarrow> (Inl f, w)
      | Inr c \<Rightarrow>
          if c = CHR ''/'' then
            (case peekPrev (cur w) line of
               Inl f \<Rightarrow> (Inl f, w)
             | Inr b \<Rightarrow>
                 (Inr (Break (if b = CHR ''*'' then P_STATE_NONE else state) (Some line)), w))
          else (Inr (Break state (Some line)), w))"

text \<open>
  The cases \<open>P_STATE_IN_SINGLE_STRING\<close> and \<open>P_STATE_IN_DOUBLE_STRING\<close>, with \<open>quote\<close> the
  character \<open>'\<close> or \<open>"\<close>: the test \<open>*line == quote && *(line-1) != '\\'\<close>.
\<close>

definition caseString ::
  "char \<Rightarrow> world \<Rightarrow> nat \<Rightarrow> ScssParserState \<Rightarrow> (fault + step) \<times> world"
where
  "caseString quote w line state =
     (case peek (cur w) line of
        Inl f \<Rightarrow> (Inl f, w)
      | Inr c \<Rightarrow>
          if c = quote then
            (case peekPrev (cur w) line of
               Inl f \<Rightarrow> (Inl f, w)
             | Inr b \<Rightarrow>
                 (Inr (Break (if b \<noteq> CHR 0x5C then P_STATE_IN_DEFINITION else state)
                         (Some line)), w))
          else (Inr (Break state (Some line)), w))"

text \<open>
  The case \<open>P_STATE_IN_MEDIA\<close> (\<open>stop\<close> is \<open>{\<close>) and the cases \<open>P_STATE_IN_IMPORT\<close> and
  \<open>P_STATE_IN_NAMESPACE\<close> (\<open>stop\<close> is \<open>;\<close>).
\<close>

definition caseSkip ::
  "char \<Rightarrow> world \<Rightarrow> nat \<Rightarrow> ScssParserState \<Rightarrow> (fault + step) \<times> world"
where
  "caseSkip stop w line state =
     (case skipTo stop (cur w) line of
        Inl f \<Rightarrow> (Inl f, w)
      | Inr line' \<Rightarrow>
          (case peek (cur w) line' of
             Inl f \<Rightarrow> (Inl f, w)
           | Inr c \<Rightarrow> (Inr (Break (if c = stop then P_STATE_NONE else state) (Some line')), w)))"

text \<open>The cases \<open>P_STATE_IN_PAGE\<close>, \<open>P_STATE_IN_FONTFACE\<close> and \<open>P_STATE_IN_DEFINITION\<close>.\<close>

definition caseDefinition ::
  "world \<Rightarrow> nat \<Rightarrow> ScssParserState \<Rightarrow> (fault + step) \<times> world"
where
  "caseDefinition w line state =
     (case peek (cur w) line of
        Inl f \<Rightarrow> (Inl f, w)
      | Inr c \<Rightarrow>
          (Inr (Break (if c = CHR ''}'' then P_STATE_NONE
                       else if c = CHR 0x27 then P_STATE_IN_SINGLE_STRING
                       else if c = CHR 0x22 then P_STATE_IN_DOUBLE_STRING
                       else state) (Some line)), w))"

text \<open>The \<open>switch (state)\<close> of \<open>parseScssLine\<close>.\<close>

fun scssSwitch :: "world \<Rightarrow> nat \<Rightarrow> ScssParserState \<Rightarrow> (fault + step) \<times> world" where
  "scssSwitch w line P_STATE_NONE = caseNone w line P_STATE_NONE"
| "scssSwitch w line P_STATE_IN_COMMENT = caseComment w line P_STATE_IN_COMMENT"
| "scssSwitch w line P_STATE_IN_SINGLE_STRING =
     caseString (CHR 0x27) w line P_STATE_IN_SINGLE_STRING"
| "scssSwitch w line P_STATE_IN_DOUBLE_STRING =
     caseString (CHR 0x22) w line P_STATE_IN_DOUBLE_STRING"
| "scssSwitch w line P_STATE_IN_MEDIA = caseSkip (CHR ''{'') w line P_STATE_IN_MEDIA"
| "scssSwitch w line P_STATE_IN_IMPORT = caseSkip (CHR '';'') w line P_STATE_IN_IMPORT"
| "scssSwitch w line P_STATE_IN_NAMESPACE = caseSkip (CHR '';'') w line P_STATE_IN_NAMESPACE"
| "scssSwitch w line P_STATE_IN_PAGE = caseDefinition w line P_STATE_IN_PAGE"
| "scssSwitch w line P_STATE_IN_FONTFACE = caseDefinition w line P_STATE_IN_FONTFACE"
| "scssSwitch w line P_STATE_IN_DEFINITION = caseDefinition w line P_STATE_IN_DEFINITION"
| "scssSwitch w line P_STATE_AT_END = (Inr (Return P_STATE_AT_END), w)"

lemma skipSpace_bounds:
  "skipSpace buf line = Inr line1 \<Longrightarrow> line \<le> line1 \<and> line1 \<le> length buf"
proof (induction buf line rule: skipSpace.induct)
  case (1 buf line)
  show ?case
  proof (cases "peek buf line")
    case (Inl f)
    with "1.prems" show ?thesis by (simp add: skipSpace.simps [of buf line])
  next
    case (Inr c)
    show ?thesis
    proof (cases "isspace c")
      case True
      with "1.prems" Inr have "skipSpace buf (line + 1) = Inr line1"
        by (simp add: skipSpace.simps [of buf line])
      with "1.IH" [OF Inr True] show ?thesis by simp
    next
      case False
      with "1.prems" Inr have "line1 = line"
        by (simp add: skipSpace.simps [of buf line])
      with Inr show ?thesis by (simp add: peek_in_buffer)
    qed
  qed
qed

lemma readKeyword_bounds:
  "readKeyword buf aux line = Inr (aux', line') \<Longrightarrow> line \<le> line' \<and> line' \<le> length buf"
proof (induction buf aux line rule: readKeyword.induct)
  case (1 buf aux line)
  show ?case
  proof (cases "peek buf line")
    case (Inl f)
    with "1.prems" show ?thesis by (simp add: readKeyword.simps [of buf aux line])
  next
    case (Inr c)
    show ?thesis
    proof (cases "isspace c")
      case False
      with "1.prems" Inr have "readKeyword buf (vStringPut aux c) (line + 1) = Inr (aux', line')"
        by (simp add: readKeyword.simps [of buf aux line])
      with "1.IH" [OF Inr False] show ?thesis by simp
    next
      case True
      with "1.prems" Inr have "line' = line"
        by (simp add: readKeyword.simps [of buf aux line])
      with Inr show ?thesis by (simp add: peek_in_buffer)
    qed
  qed
qed

lemma skipTo_bounds:
  "skipTo stop buf line = Inr line' \<Longrightarrow> line \<le> line' \<and> line' \<le> length buf"
proof (induction stop buf line rule: skipTo.induct)
  case (1 stop buf line)
  show ?case
  proof (cases "peek buf line")
    case (Inl f)
    with "1.prems" show ?thesis by (simp add: skipTo.simps [of stop buf line])
  next
    case (Inr c)
    show ?thesis
    proof (cases "c \<noteq> stop \<and> c \<noteq> NUL")
      case True
      with "1.prems" Inr have "skipTo stop buf (line + 1) = Inr line'"
        by (simp add: skipTo.simps [of stop buf line])
      with "1.IH" [OF Inr] True show ?thesis by simp
    next
      case False
      with "1.prems" Inr have "line' = line"
        by (auto simp: skipTo.simps [of stop buf line] split: if_splits)
      with Inr show ?thesis by (simp add: peek_in_buffer)
    qed
  qed
qed

lemma remaining_mono: "p \<le> q \<Longrightarrow> remaining w q \<le> remaining w p"
  by (simp add: remaining_def)

lemma remaining_step: "p \<le> length (cur w) \<Longrightarrow> remaining w (p + 1) < remaining w p"
  unfolding remaining_def by arith

lemma scssSwitch_remaining:
  assumes "scssSwitch w line state = (Inr (Break st (Some line2)), w')"
  shows "line2 \<le> length (cur w') \<and> remaining w' line2 \<le> remaining w line"
proof -
  have decl: "line2 \<le> length (cur w') \<and> remaining w' line2 \<le> remaining w line"
    if "callDeclaration (parseScssDeclaration w line kind) = (Inr (Break st (Some line2)), w')"
    for kind
  proof -
    from that have "declLoop w [] line kind = (Inr (st, Some line2), w')"
      by (auto simp: callDeclaration_def parseScssDeclaration_def split: prod.splits sum.splits)
    then show ?thesis by (rule declLoop_remaining)
  qed
  have none: ?thesis if "caseNone w line state = (Inr (Break st (Some line2)), w')"
    using that decl
    by (auto simp: caseNone_def peek_in_buffer remaining_mono
        split: sum.splits if_splits prod.splits dest!: readKeyword_bounds)
  have comment: ?thesis if "caseComment w line state = (Inr (Break st (Some line2)), w')"
    using that
    by (auto simp: caseComment_def peek_in_buffer split: sum.splits if_splits)
  have string: ?thesis if "caseString q w line state = (Inr (Break st (Some line2)), w')" for q
    using that
    by (auto simp: caseString_def peek_in_buffer split: sum.splits if_splits)
  have skip: ?thesis if "caseSkip q w line state = (Inr (Break st (Some line2)), w')" for q
    using that
    by (auto simp: caseSkip_def remaining_mono split: sum.splits if_splits dest!: skipTo_bounds)
  have body: ?thesis if "caseDefinition w line state = (Inr (Break st (Some line2)), w')"
    using that
    by (auto simp: caseDefinition_def peek_in_buffer split: sum.splits if_splits)
  show ?thesis
    using assms none comment string skip body by (cases state) simp_all
qed

text \<open>
  The loop \<open>while (*line != '\0')\<close> of \<open>parseScssLine\<close>. After the \<open>switch\<close> the test
  \<open>line == NULL\<close> leaves the loop, and \<open>line++\<close> moves on otherwise. The result is the
  returned state.
\<close>

function parseScssLine ::
  "world \<Rightarrow> nat \<Rightarrow> ScssParserState \<Rightarrow> (fault + ScssParserState) \<times> world"
where
  "parseScssLine w line state =
     (case peek (cur w) line of
        Inl f \<Rightarrow> (Inl f, w)
      | Inr c \<Rightarrow>
          if c \<noteq> NUL then
            (case skipSpace (cur w) line of
               Inl f \<Rightarrow> (Inl f, w)
             | Inr line1 \<Rightarrow>
                 (case scssSwitch w line1 state of
                    (Inl f, w') \<Rightarrow> (Inl f, w')
                  | (Inr (Return st), w') \<Rightarrow> (Inr st, w')
                  | (Inr (Break st None), w') \<Rightarrow> (Inr st, w')
                  | (Inr (Break st (Some line2)), w') \<Rightarrow> parseScssLine w' (line2 + 1) st))
          else (Inr state, w))"
  by pat_completeness auto
termination
proof (relation "measure (\<lambda>(w, line, state). remaining w line)", goal_cases)
  case 1
  show ?case by simp
next
  case (2 w line state c line1 r w' stp st position line2)
  from 2(4) [symmetric] 2(5-7)
  have sw: "scssSwitch w line1 state = (Inr (Break st (Some line2)), w')"
    by simp
  from 2 have "line \<le> line1" by (simp add: skipSpace_bounds)
  then have "remaining w line1 \<le> remaining w line" by (rule remaining_mono)
  moreover have "remaining w' (line2 + 1) < remaining w' line2"
    using scssSwitch_remaining [OF sw] by (intro remaining_step) simp
  ultimately show ?case using scssSwitch_remaining [OF sw] by simp
qed

declare parseScssLine.simps [simp del]

lemma skipSpace_total: "line \<le> length buf \<Longrightarrow> \<exists>line1. skipSpace buf line = Inr line1"
proof (induction buf line rule: skipSpace.induct)
  case (1 buf line)
  from "1.prems" obtain c where c: "peek buf line = Inr c"
    by (cases "line < length buf") (auto simp: peek_def)
  show ?case
  proof (cases "isspace c")
    case True
    then have "c \<noteq> NUL" by (auto simp: isspace_def)
    with c have "line + 1 \<le> length buf" by (auto dest: peek_in_line)
    with "1.IH" [OF c True] c True show ?thesis
      by (simp add: skipSpace.simps [of buf line])
  next
    case False
    with c show ?thesis by (simp add: skipSpace.simps [of buf line])
  qed
qed

lemma parseScssLine_fault:
  "peek (cur w) line = Inl f \<Longrightarrow> parseScssLine w line state = (Inl f, w)"
  by (simp add: parseScssLine.simps [of w line])

lemma parseScssLine_end:
  "peek (cur w) line = Inr NUL \<Longrightarrow> parseScssLine w line state = (Inr state, w)"
  by (simp add: parseScssLine.simps [of w line])

lemma parseScssLine_switch_fault:
  "peek (cur w) line = Inr c \<Longrightarrow> c \<noteq> NUL \<Longrightarrow> skipSpace (cur w) line = Inr line1 \<Longrightarrow>
   scssSwitch w line1 state = (Inl f, w') \<Longrightarrow> parseScssLine w line state = (Inl f, w')"
  by (simp add: parseScssLine.simps [of w line])

lemma parseScssLine_return:
  "peek (cur w) line = Inr c \<Longrightarrow> c \<noteq> NUL \<Longrightarrow> skipSpace (cur w) line = Inr line1 \<Longrightarrow>
   scssSwitch w line1 state = (Inr (Return st), w') \<Longrightarrow>
   parseScssLine w line state = (Inr st, w')"
  by (simp add: parseScssLine.simps [of w line])

lemma parseScssLine_null:
  "peek (cur w) line = Inr c \<Longrightarrow> c \<noteq> NUL \<Longrightarrow> skipSpace (cur w) line = Inr line1 \<Longrightarrow>
   scssSwitch w line1 state = (Inr (Break st None), w') \<Longrightarrow>
   parseScssLine w line state = (Inr st, w')"
  by (simp add: parseScssLine.simps [of w line])

lemma parseScssLine_next:
  "peek (cur w) line = Inr c \<Longrightarrow> c \<noteq> NUL \<Longrightarrow> skipSpace (cur w) line = Inr line1 \<Longrightarrow>
   scssSwitch w line1 state = (Inr (Break st (Some line2)), w') \<Longrightarrow>
   parseScssLine w line state = parseScssLine w' (line2 + 1) st"
  by (simp add: parseScssLine.simps [of w line])

lemma parseScssLine_cases_induct [case_names fault finish switch_fault return null continue]:
  fixes P :: "world \<Rightarrow> nat \<Rightarrow> ScssParserState \<Rightarrow> bool"
  assumes "\<And>w line state f. peek (cur w) line = Inl f \<Longrightarrow> P w line state"
    and "\<And>w line state. peek (cur w) line = Inr NUL \<Longrightarrow> P w line state"
    and "\<And>w line state c line1 f w'. peek (cur w) line = Inr c \<Longrightarrow> c \<noteq> NUL \<Longrightarrow>
           skipSpace (cur w) line = Inr line1 \<Longrightarrow> scssSwitch w line1 state = (Inl f, w') \<Longrightarrow>
           P w line state"
    and "\<And>w line state c line1 st w'. peek (cur w) line = Inr c \<Longrightarrow> c \<noteq> NUL \<Longrightarrow>
           skipSpace (cur w) line = Inr line1 \<Longrightarrow>
           scssSwitch w line1 state = (Inr (Return st), w') \<Longrightarrow> P w line state"
    and "\<And>w line state c line1 st w'. peek (cur w) line = Inr c \<Longrightarrow> c \<noteq> NUL \<Longrightarrow>
           skipSpace (cur w) line = Inr line1 \<Longrightarrow>
           scssSwitch w line1 state = (Inr (Break st None), w') \<Longrightarrow> P w line state"
    and "\<And>w line state c line1 st line2 w'. peek (cur w) line = Inr c \<Longrightarrow> c \<noteq> NUL \<Longrightarrow>
           skipSpace (cur w) line = Inr line1 \<Longrightarrow>
           scssSwitch w line1 state = (Inr (Break st (Some line2)), w') \<Longrightarrow>
           P w' (line2 + 1) st \<Longrightarrow> P w line state"
  shows "P w line state"
proof (induction w line state rule: parseScssLine.induct)
  case (1 w line state)
  show ?case
  proof (cases "peek (cur w) line")
    case (Inl f)
    then show ?thesis by (rule assms(1))
  next
    case (Inr c)
    note c = this
    show ?thesis
    proof (cases "c = NUL")
      case True
      with c show ?thesis by (simp add: assms(2))
    next
      case False
      from c have "line \<le> length (cur w)" by (rule peek_in_buffer)
      then obtain line1 where l1: "skipSpace (cur w) line = Inr line1"
        using skipSpace_total by blast
      obtain r w' where sw: "scssSwitch w line1 state = (r, w')"
        by (cases "scssSwitch w line1 state")
      show ?thesis
      proof (cases r)
        case (Inl f)
        with c False l1 sw show ?thesis by (auto intro: assms(3))
      next
        case (Inr stp)
        show ?thesis
        proof (cases stp)
          case (Return st)
          with c False l1 sw Inr show ?thesis by (auto intro: assms(4))
        next
          case (Break st position)
          show ?thesis
          proof (cases position)
            case None
            with c False l1 sw Inr Break show ?thesis by (auto intro: assms(5))
          next
            case (Some line2)
            have "P w' (line2 + 1) st"
              using "1.IH" [OF c False l1 sw [symmetric] Inr Break Some] .
            with c False l1 sw Inr Break Some show ?thesis by (auto intro: assms(6))
          qed
        qed
      qed
    qed
  qed
qed

lemma scssSwitch_pending:
  assumes "scssSwitch w line state = (r, w')"
  shows "length (pending w') \<le> length (pending w)"
proof -
  have decl: "length (pending w') \<le> length (pending w)"
    if "callDeclaration (parseScssDeclaration w line kind) = (r, w')" for kind
    using that
    by (auto simp: callDeclaration_def parseScssDeclaration_def
        split: prod.splits sum.splits dest: declLoop_pending)
  have none: ?thesis if "caseNone w line state = (r, w')"
    using that decl
    by (auto simp: caseNone_def split: sum.splits if_splits prod.splits)
  have comment: ?thesis if "caseComment w line state = (r, w')"
    using that by (auto simp: caseComment_def split: sum.splits if_splits)
  have string: ?thesis if "caseString q w line state = (r, w')" for q
    using that by (auto simp: caseString_def split: sum.splits if_splits)
  have skip: ?thesis if "caseSkip q w line state = (r, w')" for q
    using that by (auto simp: caseSkip_def split: sum.splits if_splits)
  have body: ?thesis if "caseDefinition w line state = (r, w')"
    using that by (auto simp: caseDefinition_def split: sum.splits if_splits)
  show ?thesis
    using assms none comment string skip body by (cases state) auto
qed

lemma parseScssLine_pending:
  "parseScssLine w line state = (r, w') \<Longrightarrow> length (pending w') \<le> length (pending w)"
proof (induction w line state rule: parseScssLine_cases_induct)
  case (continue w line state c line1 st line2 w1)
  then have "length (pending w') \<le> length (pending w1)"
    by (simp add: parseScssLine_next)
  with scssSwitch_pending [OF continue(4)] show ?case by simp
qed (auto simp: parseScssLine_fault parseScssLine_end parseScssLine_switch_fault
      parseScssLine_return parseScssLine_null dest: scssSwitch_pending)

subsection \<open>findScssTags\<close>

text \<open>
  The loop \<open>while ((line = fileReadLine ()) != NULL)\<close> of \<open>findScssTags\<close>. The result is the
  value of the variable \<open>state\<close> when the function returns.
\<close>

function findScssLoop :: "world \<Rightarrow> ScssParserState \<Rightarrow> (fault + ScssParserState) \<times> world" where
  "findScssLoop w state =
     (case fileReadLine w of
        (None, w') \<Rightarrow> (Inr state, w')
      | (Some line, w') \<Rightarrow>
          (case parseScssLine w' line state of
             (Inl f, w'') \<Rightarrow> (Inl f, w'')
           | (Inr st, w'') \<Rightarrow>
               if st = P_STATE_AT_END then (Inr st, w'') else findScssLoop w'' st))"
  by pat_completeness auto
termination
proof (relation "measure (\<lambda>(w, state). length (pending w))", goal_cases)
  case 1
  show ?case by simp
next
  case (2 w state p w' line r w'' st)
  from 2(1) [symmetric] 2(2) have "length (pending w') < length (pending w)"
    by (auto simp: fileReadLine_def split: list.splits)
  moreover from 2(3) [symmetric] have "length (pending w'') \<le> length (pending w')"
    by (rule parseScssLine_pending)
  ultimately show ?case by simp
qed

declare findScssLoop.simps [simp del]

text \<open>\<open>findScssTags\<close> initialises the variable \<open>state\<close> to \<open>P_STATE_NONE\<close>.\<close>

definition findScssTags :: "world \<Rightarrow> (fault + ScssParserState) \<times> world" where
  "findScssTags w = findScssLoop w P_STATE_NONE"

text \<open>The world before the first line of an input is read.\<close>

definition input :: "string list \<Rightarrow> world" where
  "input ls = \<lparr>cur = [], pending = ls, tags = []\<rparr>"

section \<open>Facts about the scanner\<close>

subsection \<open>Runs of characters, end of input\<close>

lemma vStringStripTrailing_split:
  "\<exists>ws. name = vStringStripTrailing name @ ws \<and> list_all isspace ws"
proof -
  have "rev name = takeWhile isspace (rev name) @ dropWhile isspace (rev name)"
    by simp
  then have "name = rev (dropWhile isspace (rev name)) @ rev (takeWhile isspace (rev name))"
    by (metis rev_append rev_rev_ident)
  moreover have "list_all isspace (rev (takeWhile isspace (rev name)))"
    by (auto simp: list_all_iff dest: set_takeWhileD)
  ultimately show ?thesis
    unfolding vStringStripTrailing_def by blast
qed

lemma vStringStripTrailing_stripped:
  "takeWhile isspace (rev (vStringStripTrailing name)) = []"
proof -
  have "takeWhile P (dropWhile P xs) = []" for P :: "char \<Rightarrow> bool" and xs
    by (induction xs) auto
  then show ?thesis by (simp add: vStringStripTrailing_def)
qed

lemma peek_drop: "drop i buf = c # rest \<Longrightarrow> peek buf i = Inr c"
proof -
  assume a: "drop i buf = c # rest"
  then have "i < length buf" by (cases "i < length buf") auto
  moreover from a have "buf ! i = c"
    by (metis nth_via_drop)
  ultimately show ?thesis by (simp add: peek_def)
qed

lemma drop_Suc_tail: "drop i buf = c # rest \<Longrightarrow> drop (Suc i) buf = rest"
  by (metis drop_Suc list.sel(3) tl_drop)

lemma peek_length: "peek buf (length buf) = Inr NUL"
  by (simp add: peek_def)

lemma peek_beyond: "length buf < i \<Longrightarrow> peek buf i = Inl ReadPastEnd"
  by (simp add: peek_def)

lemma readKeyword_run:
  "drop line buf = kw @ s # rest \<Longrightarrow> isspace s \<Longrightarrow> list_all (\<lambda>c. \<not> isspace c) kw \<Longrightarrow>
   readKeyword buf aux line = Inr (aux @ kw, line + length kw)"
proof (induction kw arbitrary: aux line)
  case Nil
  then have "peek buf line = Inr s" by (simp add: peek_drop)
  with Nil show ?case by (simp add: readKeyword.simps [of buf aux line])
next
  case (Cons c kw)
  from Cons.prems have c: "peek buf line = Inr c" by (simp add: peek_drop)
  from Cons.prems have "drop (Suc line) buf = kw @ s # rest"
    by (simp add: drop_Suc_tail)
  then have "readKeyword buf (vStringPut aux c) (Suc line) =
      Inr (vStringPut aux c @ kw, Suc line + length kw)"
    using Cons.prems by (intro Cons.IH) simp_all
  with c Cons.prems show ?case
    by (simp add: readKeyword.simps [of buf aux line] vStringPut_def)
qed

lemma readKeyword_no_space:
  "line \<le> length buf \<Longrightarrow> list_all (\<lambda>c. \<not> isspace c) (drop line buf) \<Longrightarrow>
   readKeyword buf aux line = Inl ReadPastEnd"
proof (induction "drop line buf" arbitrary: aux line)
  case Nil
  then have "line = length buf" by simp
  then have "peek buf line = Inr NUL" "peek buf (Suc line) = Inl ReadPastEnd"
    by (simp_all add: peek_def)
  then show ?case
    by (simp add: readKeyword.simps [of buf aux line] readKeyword.simps [of buf _ "Suc line"]
        isspace_def)
next
  case (Cons c cs)
  from Cons(2) [symmetric] have c: "peek buf line = Inr c" by (rule peek_drop)
  from Cons(2) [symmetric] have d: "drop (Suc line) buf = cs" by (rule drop_Suc_tail)
  from Cons(2) Cons(4) have ns: "\<not> isspace c" "list_all (\<lambda>c. \<not> isspace c) cs"
    by (metis list.pred_inject(2))+
  from c have "line < length buf" using Cons(2) by (cases "line < length buf") auto
  then have "readKeyword buf (vStringPut aux c) (Suc line) = Inl ReadPastEnd"
    using d ns by (intro Cons(1)) simp_all
  with c ns show ?case by (simp add: readKeyword.simps [of buf aux line])
qed

lemma skipTo_run:
  "line \<le> length buf \<Longrightarrow>
   skipTo stop buf line =
     Inr (line + length (takeWhile (\<lambda>c. c \<noteq> stop \<and> c \<noteq> NUL) (drop line buf)))"
proof (induction "drop line buf" arbitrary: line)
  case Nil
  then have "line = length buf" by simp
  then have "peek buf line = Inr NUL" by (simp add: peek_def)
  with Nil show ?case by (simp add: skipTo.simps [of stop buf line])
next
  case (Cons c cs)
  from Cons(2) [symmetric] have c: "peek buf line = Inr c" by (rule peek_drop)
  from Cons(2) [symmetric] have d: "drop (Suc line) buf = cs" by (rule drop_Suc_tail)
  from Cons(2) have "line < length buf" by (cases "line < length buf") auto
  then have "skipTo stop buf (Suc line) =
     Inr (Suc line + length (takeWhile (\<lambda>c. c \<noteq> stop \<and> c \<noteq> NUL) (drop (Suc line) buf)))"
    using d by (intro Cons(1)) simp_all
  with c d Cons(2) [symmetric] show ?case
    by (simp add: skipTo.simps [of stop buf line])
qed

lemma skipSpace_run:
  "line \<le> length buf \<Longrightarrow>
   skipSpace buf line = Inr (line + length (takeWhile isspace (drop line buf)))"
proof (induction "drop line buf" arbitrary: line)
  case Nil
  then have "line = length buf" by simp
  then have "peek buf line = Inr NUL" by (simp add: peek_def)
  with Nil show ?case by (simp add: skipSpace.simps [of buf line] isspace_def)
next
  case (Cons c cs)
  from Cons(2) [symmetric] have c: "peek buf line = Inr c" by (rule peek_drop)
  from Cons(2) [symmetric] have d: "drop (Suc line) buf = cs" by (rule drop_Suc_tail)
  from Cons(2) have "line < length buf" by (cases "line < length buf") auto
  then have "skipSpace buf (Suc line) =
     Inr (Suc line + length (takeWhile isspace (drop (Suc line) buf)))"
    using d by (intro Cons(1)) simp_all
  with c d Cons(2) [symmetric] show ?case
    by (simp add: skipSpace.simps [of buf line])
qed

lemma skipSpace_stay:
  "peek buf line = Inr c \<Longrightarrow> \<not> isspace c \<Longrightarrow> skipSpace buf line = Inr line"
  by (simp add: skipSpace.simps [of buf line])

lemma strcmp_eq_no_NUL: "list_all (\<lambda>c. c \<noteq> NUL) kw \<Longrightarrow> strcmp_eq kw kw' = (kw = kw')"
  by (simp add: strcmp_eq_def takeWhile_eq_all_conv [THEN iffD2] list_all_iff)

lemma directive_no_NUL:
  "list_all (\<lambda>c. c \<noteq> NUL) kw \<Longrightarrow>
   directive kw state =
     (if kw = ''media'' then P_STATE_IN_MEDIA
      else if kw = ''import'' then P_STATE_IN_IMPORT
      else if kw = ''namespace'' then P_STATE_IN_NAMESPACE
      else if kw = ''page'' then P_STATE_IN_PAGE
      else if kw = ''font-face'' then P_STATE_IN_FONTFACE
      else state)"
  unfolding directive_def by (simp only: strcmp_eq_no_NUL)

lemma tags_makeScssSimpleTag:
  "tags (makeScssSimpleTag name kind w) =
     tags w @ [(kind, if kind = K_CLASS then vStringStripTrailing name else name)]"
  by (simp add: makeScssSimpleTag_def makeSimpleTag_def)

lemma declLoop_run:
  "pending w = [] \<Longrightarrow> cp \<le> length (cur w) \<Longrightarrow>
   list_all (\<lambda>c. isScssDeclarationAllowedChar c \<and> c \<noteq> NUL \<and> c \<noteq> CHR '','' \<and> c \<noteq> CHR ''{'')
     (drop cp (cur w)) \<Longrightarrow>
   declLoop w name cp kind =
     (Inr (P_STATE_AT_END, None), makeScssSimpleTag (name @ drop cp (cur w)) kind w)"
proof (induction "drop cp (cur w)" arbitrary: name cp)
  case Nil
  then have "cp = length (cur w)" by simp
  then have "peek (cur w) cp = Inr NUL" by (simp add: peek_def)
  with Nil show ?case by (simp add: declLoop_eof)
next
  case (Cons c cs)
  from Cons(2) [symmetric] have c: "peek (cur w) cp = Inr c" by (rule peek_drop)
  from Cons(2) [symmetric] have d: "drop (Suc cp) (cur w) = cs" by (rule drop_Suc_tail)
  from Cons(2) have lt: "cp < length (cur w)" by (cases "cp < length (cur w)") auto
  from Cons(2) [symmetric] Cons(5)
  have ok: "isScssDeclarationAllowedChar c" "c \<noteq> NUL" "c \<noteq> CHR '',''" "c \<noteq> CHR ''{''"
    and rest: "list_all (\<lambda>c. isScssDeclarationAllowedChar c \<and> c \<noteq> NUL \<and> c \<noteq> CHR '','' \<and> c \<noteq> CHR ''{'')
       (drop (Suc cp) (cur w))"
    by (simp_all add: d)
  have "declLoop w (vStringPut name c) (Suc cp) kind =
     (Inr (P_STATE_AT_END, None),
      makeScssSimpleTag (vStringPut name c @ drop (Suc cp) (cur w)) kind w)"
    using d lt rest Cons(3) by (intro Cons(1)) simp_all
  moreover have "declLoop w name cp kind = declLoop w (vStringPut name c) (Suc cp) kind"
    using declLoop_step [OF c ok] by simp
  ultimately show ?case
    using Cons(2) [symmetric] d by (simp add: vStringPut_def)
qed

lemma findScssLoop_line:
  "pending w = l # ls \<Longrightarrow>
   findScssLoop w state =
     (case parseScssLine (w\<lparr>cur := l, pending := ls\<rparr>) 0 state of
        (Inl f, w'') \<Rightarrow> (Inl f, w'')
      | (Inr st, w'') \<Rightarrow>
          if st = P_STATE_AT_END then (Inr st, w'') else findScssLoop w'' st)"
  by (simp add: findScssLoop.simps [of w] fileReadLine_def)

lemma findScssLoop_eof: "pending w = [] \<Longrightarrow> findScssLoop w state = (Inr state, w)"
  by (simp add: findScssLoop.simps [of w] fileReadLine_def)

lemma declLoop_AT_END:
  "declLoop w name cp kind = (Inr (st, p), w') \<Longrightarrow> st = P_STATE_AT_END \<or> p = None \<Longrightarrow>
   st = P_STATE_AT_END \<and> p = None \<and> pending w' = [] \<and> (\<exists>name'. tags w' = tags w @ [(kind, name')])"
proof (induction w name cp kind rule: declLoop_cases_induct)
  case (nextline w name cp kind l ls)
  then show ?case by (simp add: declLoop_nextline)
next
  case (step w name cp kind c)
  then show ?case by (simp add: declLoop_step)
qed (auto simp: declLoop_fault declLoop_eof declLoop_comma declLoop_brace declLoop_stop
       tags_makeScssSimpleTag)

lemma declLoop_tags:
  "declLoop w name cp kind = (r, w') \<Longrightarrow> length (tags w) \<le> length (tags w')"
proof (induction w name cp kind rule: declLoop_cases_induct)
  case (nextline w name cp kind l ls)
  then show ?case by (simp add: declLoop_nextline)
next
  case (step w name cp kind c)
  then show ?case by (simp add: declLoop_step)
qed (auto simp: declLoop_fault declLoop_eof declLoop_comma declLoop_brace declLoop_stop
       tags_makeScssSimpleTag)

lemma scssSwitch_AT_END:
  assumes "scssSwitch w line state = (Inr stp, w')"
    and "state \<noteq> P_STATE_AT_END"
  shows "\<exists>st p. stp = Break st p \<and>
           (st = P_STATE_AT_END \<or> p = None \<longrightarrow>
              st = P_STATE_AT_END \<and> p = None \<and> state = P_STATE_NONE
              \<and> (\<exists>kind. parseScssDeclaration w line kind = (Inr (P_STATE_AT_END, None), w')))"
proof -
  have decl: ?thesis
    if "callDeclaration (parseScssDeclaration w line kind) = (Inr stp, w')"
      and "state = P_STATE_NONE" for kind
  proof -
    from that(1) obtain st p where stp: "stp = Break st p"
      and d: "parseScssDeclaration w line kind = (Inr (st, p), w')"
      by (auto simp: callDeclaration_def split: prod.splits sum.splits)
    from d have "st = P_STATE_AT_END \<or> p = None \<Longrightarrow> st = P_STATE_AT_END \<and> p = None"
      unfolding parseScssDeclaration_def by (auto dest: declLoop_AT_END)
    with stp d that(2) show ?thesis by blast
  qed
  have none: ?thesis if "caseNone w line state = (Inr stp, w')" "state = P_STATE_NONE"
    using that decl
    by (auto simp: caseNone_def directive_def split: sum.splits if_splits prod.splits)
  have comment: ?thesis if "caseComment w line state = (Inr stp, w')"
    using that assms(2) by (auto simp: caseComment_def split: sum.splits if_splits)
  have string: ?thesis if "caseString q w line state = (Inr stp, w')" for q
    using that assms(2) by (auto simp: caseString_def split: sum.splits if_splits)
  have skip: ?thesis if "caseSkip q w line state = (Inr stp, w')" for q
    using that assms(2) by (auto simp: caseSkip_def split: sum.splits if_splits)
  have body: ?thesis if "caseDefinition w line state = (Inr stp, w')"
    using that assms(2) by (auto simp: caseDefinition_def split: sum.splits if_splits)
  show ?thesis
    using assms none comment string skip body by (cases state) simp_all
qed

lemma scssSwitch_tags:
  assumes "scssSwitch w line state = (r, w')"
  shows "length (tags w) \<le> length (tags w')"
proof -
  have decl: "length (tags w) \<le> length (tags w')"
    if "callDeclaration (parseScssDeclaration w line kind) = (r, w')" for kind
    using that
    by (auto simp: callDeclaration_def parseScssDeclaration_def
        split: prod.splits sum.splits dest: declLoop_tags)
  have none: ?thesis if "caseNone w line state = (r, w')"
    using that decl
    by (auto simp: caseNone_def split: sum.splits if_splits prod.splits)
  have comment: ?thesis if "caseComment w line state = (r, w')"
    using that by (auto simp: caseComment_def split: sum.splits if_splits)
  have string: ?thesis if "caseString q w line state = (r, w')" for q
    using that by (auto simp: caseString_def split: sum.splits if_splits)
  have skip: ?thesis if "caseSkip q w line state = (r, w')" for q
    using that by (auto simp: caseSkip_def split: sum.splits if_splits)
  have body: ?thesis if "caseDefinition w line state = (r, w')"
    using that by (auto simp: caseDefinition_def split: sum.splits if_splits)
  show ?thesis
    using assms none comment string skip body by (cases state) auto
qed

lemma parseScssLine_tags:
  "parseScssLine w line state = (r, w') \<Longrightarrow> length (tags w) \<le> length (tags w')"
proof (induction w line state rule: parseScssLine_cases_induct)
  case (continue w line state c line1 st line2 w1)
  then have "length (tags w1) \<le> length (tags w')"
    by (simp add: parseScssLine_next)
  with scssSwitch_tags [OF continue(4)] show ?case by simp
qed (auto simp: parseScssLine_fault parseScssLine_end parseScssLine_switch_fault
      parseScssLine_return parseScssLine_null dest: scssSwitch_tags)

lemma parseScssLine_AT_END:
  "parseScssLine w line state = (Inr P_STATE_AT_END, w') \<Longrightarrow> state \<noteq> P_STATE_AT_END \<Longrightarrow>
   pending w' = [] \<and> length (tags w) < length (tags w')"
proof (induction w line state rule: parseScssLine_cases_induct)
  case (fault w line state f)
  then show ?case by (simp add: parseScssLine_fault)
next
  case (finish w line state)
  then show ?case by (simp add: parseScssLine_end)
next
  case (switch_fault w line state c line1 f w1)
  then show ?case by (simp add: parseScssLine_switch_fault)
next
  case (return w line state c line1 st w1)
  with scssSwitch_AT_END [OF return(4)] show ?case by simp
next
  case (null w line state c line1 st w1)
  from scssSwitch_AT_END [OF null(4) null(6)]
  obtain kind where "parseScssDeclaration w line1 kind = (Inr (P_STATE_AT_END, None), w1)"
    by auto
  then have "pending w1 = [] \<and> (\<exists>name'. tags w1 = tags w @ [(kind, name')])"
    unfolding parseScssDeclaration_def by (auto dest: declLoop_AT_END)
  moreover from null have "w' = w1" by (simp add: parseScssLine_null)
  ultimately show ?case by auto
next
  case (continue w line state c line1 st line2 w1)
  from scssSwitch_AT_END [OF continue(4) continue(7)] have "st \<noteq> P_STATE_AT_END"
    by auto
  moreover from continue have "parseScssLine w1 (line2 + 1) st = (Inr P_STATE_AT_END, w')"
    by (simp add: parseScssLine_next)
  ultimately have "pending w' = [] \<and> length (tags w1) < length (tags w')"
    by (rule continue(5) [rotated])
  with scssSwitch_tags [OF continue(4)] show ?case by simp
qed

lemma findScssLoop_AT_END:
  "findScssLoop w state = (Inr P_STATE_AT_END, w') \<Longrightarrow> state \<noteq> P_STATE_AT_END \<Longrightarrow>
   pending w' = [] \<and> length (tags w) < length (tags w')"
proof (induction w state rule: findScssLoop.induct)
  case (1 w state)
  show ?case
  proof (cases "pending w")
    case Nil
    with "1.prems" show ?thesis by (simp add: findScssLoop_eof)
  next
    case (Cons l ls)
    define w1 where "w1 = w\<lparr>cur := l, pending := ls\<rparr>"
    have frl: "fileReadLine w = (Some 0, w1)"
      by (simp add: fileReadLine_def Cons w1_def)
    obtain r w2 where p: "parseScssLine w1 0 state = (r, w2)"
      by (cases "parseScssLine w1 0 state")
    have t1: "length (tags w) \<le> length (tags w2)"
      using parseScssLine_tags [OF p] by (simp add: w1_def)
    show ?thesis
    proof (cases r)
      case (Inl f)
      with "1.prems" Cons p show ?thesis
        by (simp add: findScssLoop_line w1_def [symmetric])
    next
      case (Inr st)
      show ?thesis
      proof (cases "st = P_STATE_AT_END")
        case True
        with "1.prems" Cons p Inr have "w' = w2"
          by (simp add: findScssLoop_line w1_def [symmetric])
        moreover from p Inr True "1.prems"(2)
        have "pending w2 = [] \<and> length (tags w1) < length (tags w2)"
          by (intro parseScssLine_AT_END) simp_all
        ultimately show ?thesis by (simp add: w1_def)
      next
        case False
        with "1.prems" Cons p Inr have "findScssLoop w2 st = (Inr P_STATE_AT_END, w')"
          by (simp add: findScssLoop_line w1_def [symmetric])
        with "1.IH" [OF frl [symmetric] refl p [symmetric] Inr False] False
        have "pending w' = [] \<and> length (tags w2) < length (tags w')"
          by simp
        with t1 show ?thesis by simp
      qed
    qed
  qed
qed

subsection \<open>Independence of a character the scan steps over\<close>

text \<open>
  A world with one character of the current line replaced; used to state that a scan does
  not depend on a character.
\<close>

definition poke :: "nat \<Rightarrow> char \<Rightarrow> world \<Rightarrow> world" where
  "poke j x w = w\<lparr>cur := (cur w)[j := x]\<rparr>"

text \<open>
  The result of a scan started in a world with a replaced character, in terms of the result
  \<open>r\<close> of the scan started in the world \<open>w\<close>: the replaced character is still there
  unless the scan has read a new line into the buffer.
\<close>

definition unlessRead :: "nat \<Rightarrow> char \<Rightarrow> world \<Rightarrow> 'a \<times> world \<Rightarrow> 'a \<times> world" where
  "unlessRead j x w r =
     (case r of (v, w0) \<Rightarrow> (v, if pending w0 = pending w then poke j x w0 else w0))"

lemma peek_poke: "i \<noteq> j \<Longrightarrow> peek (buf[j := x]) i = peek buf i"
  by (simp add: peek_def)

lemma peekPrev_poke: "j + 1 < i \<Longrightarrow> peekPrev (buf[j := x]) i = peekPrev buf i"
  by (simp add: peekPrev_def peek_poke)

lemma poke_simps [simp]:
  "cur (poke j x w) = (cur w)[j := x]"
  "pending (poke j x w) = pending w"
  "tags (poke j x w) = tags w"
  "poke j x (makeScssSimpleTag name kind w) = makeScssSimpleTag name kind (poke j x w)"
  "poke j x w\<lparr>cur := l, pending := ls\<rparr> = w\<lparr>cur := l, pending := ls\<rparr>"
  by (simp_all add: poke_def makeScssSimpleTag_def makeSimpleTag_def)

lemma skipSpace_poke: "j < line \<Longrightarrow> skipSpace (buf[j := x]) line = skipSpace buf line"
proof (induction buf line rule: skipSpace.induct)
  case (1 buf line)
  show ?case
  proof (cases "peek buf line")
    case (Inl f)
    with 1 show ?thesis
      by (simp add: skipSpace.simps [of _ line] peek_poke)
  next
    case (Inr c)
    with 1 show ?thesis
      by (simp add: skipSpace.simps [of _ line] peek_poke)
  qed
qed

lemma readKeyword_poke:
  "j < line \<Longrightarrow> readKeyword (buf[j := x]) aux line = readKeyword buf aux line"
proof (induction buf aux line rule: readKeyword.induct)
  case (1 buf aux line)
  show ?case
  proof (cases "peek buf line")
    case (Inl f)
    with 1 show ?thesis
      by (simp add: readKeyword.simps [of _ aux line] peek_poke)
  next
    case (Inr c)
    with 1 show ?thesis
      by (simp add: readKeyword.simps [of _ aux line] peek_poke)
  qed
qed

lemma skipTo_poke: "j < line \<Longrightarrow> skipTo stop (buf[j := x]) line = skipTo stop buf line"
proof (induction stop buf line rule: skipTo.induct)
  case (1 stop buf line)
  show ?case
  proof (cases "peek buf line")
    case (Inl f)
    with 1 show ?thesis
      by (simp add: skipTo.simps [of stop _ line] peek_poke)
  next
    case (Inr c)
    with 1 show ?thesis
      by (simp add: skipTo.simps [of stop _ line] peek_poke)
  qed
qed

lemma fileReadLine_shorter:
  "fileReadLine w = (Some p, w') \<Longrightarrow> length (pending w') < length (pending w)"
  by (auto simp: fileReadLine_def split: list.splits)

lemma declLoop_same_line:
  "declLoop w name cp kind = (r, w') \<Longrightarrow>
   length (pending w') < length (pending w)
   \<or> pending w' = pending w \<and> cur w' = cur w \<and> (\<forall>st p. r = Inr (st, Some p) \<longrightarrow> cp \<le> p)"
proof (induction w name cp kind rule: declLoop_cases_induct)
  case (nextline w name cp kind l ls)
  then have "length (pending w') \<le> length ls"
    using declLoop_pending [of "w\<lparr>cur := l, pending := ls\<rparr>" _ 1 kind r w']
    by (simp add: declLoop_nextline)
  with nextline(2) show ?case by simp
next
  case (step w name cp kind c)
  then show ?case by (auto simp: declLoop_step)
qed (auto simp: declLoop_fault declLoop_eof declLoop_comma declLoop_brace declLoop_stop)

lemma declLoop_poke:
  "j < cp \<Longrightarrow>
   declLoop (poke j x w) name cp kind = unlessRead j x w (declLoop w name cp kind)"
proof (induction w name cp kind rule: declLoop_cases_induct)
  case (fault w name cp kind f)
  then show ?case by (simp add: declLoop_fault peek_poke unlessRead_def)
next
  case (eof w name cp kind)
  then show ?case by (simp add: declLoop_eof peek_poke unlessRead_def)
next
  case (nextline w name cp kind l ls)
  let ?w1 = "w\<lparr>cur := l, pending := ls\<rparr>"
  let ?c = "case l of [] \<Rightarrow> NUL | c # _ \<Rightarrow> c"
  have "declLoop (poke j x w) name cp kind = declLoop ?w1 (vStringPut name ?c) 1 kind"
    using nextline(1,2,4) declLoop_nextline [of "poke j x w" cp l ls name kind]
    by (simp add: peek_poke poke_def)
  moreover have "declLoop w name cp kind = declLoop ?w1 (vStringPut name ?c) 1 kind"
    using nextline(1,2) by (rule declLoop_nextline)
  moreover have "pending (snd (declLoop ?w1 (vStringPut name ?c) 1 kind)) \<noteq> pending w"
    using declLoop_pending [of ?w1 "vStringPut name ?c" 1 kind] nextline(2)
    by (cases "declLoop ?w1 (vStringPut name ?c) 1 kind") auto
  ultimately show ?case
    by (cases "declLoop ?w1 (vStringPut name ?c) 1 kind") (simp add: unlessRead_def)
next
  case (comma w name cp kind)
  then show ?case by (simp add: declLoop_comma peek_poke unlessRead_def)
next
  case (brace w name cp kind)
  then show ?case by (simp add: declLoop_brace peek_poke unlessRead_def)
next
  case (stop w name cp kind c)
  then show ?case by (simp add: declLoop_stop peek_poke unlessRead_def)
next
  case (step w name cp kind c)
  then have "peek (cur (poke j x w)) cp = Inr c" by (simp add: peek_poke)
  then have "declLoop (poke j x w) name cp kind =
      declLoop (poke j x w) (vStringPut name c) (cp + 1) kind"
    using step by (intro declLoop_step) simp_all
  with step show ?case by (simp add: declLoop_step)
qed


lemma callDeclaration_unlessRead:
  "callDeclaration (unlessRead j x w r) = unlessRead j x w (callDeclaration r)"
  by (cases r) (auto simp: callDeclaration_def unlessRead_def split: sum.splits)

lemma lookback_poke:
  assumes "j < line" and "peek buf line = Inr c"
  shows "peekPrev (buf[j := x]) line = (if j + 1 = line then Inr x else peekPrev buf line)"
proof -
  from assms(2) have "line \<le> length buf" by (rule peek_in_buffer)
  with assms(1) have j: "j < length buf" by simp
  show ?thesis
  proof (cases "j + 1 = line")
    case True
    then have "peekPrev (buf[j := x]) line = peek (buf[j := x]) j"
      by (auto simp: peekPrev_def)
    with j True show ?thesis by (simp add: peek_def)
  next
    case False
    with assms(1) have "j + 1 < line" by simp
    with False show ?thesis by (simp add: peekPrev_poke)
  qed
qed

lemma lookback_before:
  assumes "peek buf (j + 1) = Inr c"
  shows "peekPrev buf (j + 1) = Inr (buf ! j)"
proof -
  from assms have "j + 1 \<le> length buf" by (rule peek_in_buffer)
  then show ?thesis by (simp add: peekPrev_def peek_def)
qed

lemma caseNone_poke:
  assumes "j < line"
    and "j + 1 < line
         \<or> (peek (cur w) line = Inr (CHR ''*'') \<longrightarrow> (cur w ! j = CHR ''/'') = (x = CHR ''/''))"
  shows "caseNone (poke j x w) line state = unlessRead j x w (caseNone w line state)"
proof (cases "peek (cur w) line")
  case (Inl f)
  with assms(1) show ?thesis by (simp add: caseNone_def peek_poke unlessRead_def)
next
  case (Inr c)
  have decl: "callDeclaration (parseScssDeclaration (poke j x w) line kind) =
      unlessRead j x w (callDeclaration (parseScssDeclaration w line kind))" for kind
    using assms(1)
    by (simp add: parseScssDeclaration_def declLoop_poke callDeclaration_unlessRead)
  have kw: "readKeyword ((cur w)[j := x]) [] (line + 1) = readKeyword (cur w) [] (line + 1)"
    using assms(1) by (intro readKeyword_poke) simp
  have star: "caseNone (poke j x w) line state = unlessRead j x w (caseNone w line state)"
    if "c = CHR ''*''"
  proof (cases "j + 1 = line")
    case True
    with assms(2) Inr that have "(cur w ! j = CHR ''/'') = (x = CHR ''/'')" by simp
    moreover from True Inr have "peekPrev (cur w) line = Inr (cur w ! j)"
      using lookback_before [of "cur w" j c] by simp
    ultimately show ?thesis
      using True Inr that assms(1) lookback_poke [OF assms(1) Inr, of x]
      by (simp add: caseNone_def peek_poke unlessRead_def isalnum_def)
  next
    case False
    with Inr that assms(1) lookback_poke [OF assms(1) Inr, of x] show ?thesis
      by (cases "peekPrev (cur w) line")
         (simp_all add: caseNone_def peek_poke unlessRead_def isalnum_def)
  qed
  show ?thesis
  proof (cases "c = CHR ''*''")
    case True
    then show ?thesis by (rule star)
  next
    case False
    with Inr assms(1) decl kw show ?thesis
      by (cases "readKeyword (cur w) [] (line + 1)")
         (auto simp: caseNone_def peek_poke unlessRead_def)
  qed
qed

lemma caseComment_poke:
  assumes "j + 1 < line"
  shows "caseComment (poke j x w) line state = unlessRead j x w (caseComment w line state)"
  using assms
  by (cases "peek (cur w) line"; cases "peekPrev (cur w) line")
     (simp_all add: caseComment_def peek_poke peekPrev_poke unlessRead_def)

lemma caseString_poke:
  assumes "j + 1 < line"
  shows "caseString q (poke j x w) line state = unlessRead j x w (caseString q w line state)"
  using assms
  by (cases "peek (cur w) line"; cases "peekPrev (cur w) line")
     (simp_all add: caseString_def peek_poke peekPrev_poke unlessRead_def)

lemma caseSkip_poke:
  assumes "j < line"
  shows "caseSkip q (poke j x w) line state = unlessRead j x w (caseSkip q w line state)"
proof (cases "skipTo q (cur w) line")
  case (Inl f)
  with assms show ?thesis by (simp add: caseSkip_def skipTo_poke unlessRead_def)
next
  case (Inr line')
  then have "j < line'" using assms by (auto dest: skipTo_bounds)
  with Inr assms show ?thesis
    by (cases "peek (cur w) line'") (simp_all add: caseSkip_def skipTo_poke peek_poke unlessRead_def)
qed

lemma caseDefinition_poke:
  assumes "j < line"
  shows "caseDefinition (poke j x w) line state = unlessRead j x w (caseDefinition w line state)"
  using assms
  by (cases "peek (cur w) line") (simp_all add: caseDefinition_def peek_poke unlessRead_def)

lemma scssSwitch_poke:
  assumes "j < line"
    and "j + 1 < line \<or> state = P_STATE_IN_DEFINITION
         \<or> state = P_STATE_NONE
           \<and> (peek (cur w) line = Inr (CHR ''*'') \<longrightarrow> (cur w ! j = CHR ''/'') = (x = CHR ''/''))"
  shows "scssSwitch (poke j x w) line state = unlessRead j x w (scssSwitch w line state)"
proof (cases state)
  case P_STATE_NONE
  with assms show ?thesis by (auto simp: caseNone_poke)
next
  case P_STATE_IN_COMMENT
  with assms show ?thesis by (auto simp: caseComment_poke)
next
  case P_STATE_IN_SINGLE_STRING
  with assms show ?thesis by (auto simp: caseString_poke)
next
  case P_STATE_IN_DOUBLE_STRING
  with assms show ?thesis by (auto simp: caseString_poke)
next
  case P_STATE_AT_END
  then show ?thesis by (simp add: unlessRead_def)
qed (use assms in \<open>simp_all add: caseSkip_poke caseDefinition_poke\<close>)

lemma scssSwitch_same_line:
  assumes "scssSwitch w line state = (r, w')"
  shows "length (pending w') < length (pending w)
     \<or> pending w' = pending w \<and> (\<forall>st l2. r = Inr (Break st (Some l2)) \<longrightarrow> line \<le> l2)"
proof -
  have decl: ?thesis
    if "callDeclaration (parseScssDeclaration w line kind) = (r, w')" for kind
  proof (cases "declLoop w [] line kind")
    case (Pair r0 w0)
    with that have "w0 = w'"
      and r: "r = (case r0 of Inl f \<Rightarrow> Inl f | Inr (st, p) \<Rightarrow> Inr (Break st p))"
      by (auto simp: callDeclaration_def parseScssDeclaration_def split: sum.splits)
    with Pair have d: "declLoop w [] line kind = (r0, w')" by simp
    from declLoop_same_line [OF d] r show ?thesis
      by (auto split: sum.splits)
  qed
  have none: ?thesis if "caseNone w line state = (r, w')"
    using that decl
    by (auto simp: caseNone_def split: sum.splits if_splits prod.splits dest!: readKeyword_bounds)
  have comment: ?thesis if "caseComment w line state = (r, w')"
    using that by (auto simp: caseComment_def split: sum.splits if_splits)
  have string: ?thesis if "caseString q w line state = (r, w')" for q
    using that by (auto simp: caseString_def split: sum.splits if_splits)
  have skip: ?thesis if "caseSkip q w line state = (r, w')" for q
    using that by (auto simp: caseSkip_def split: sum.splits if_splits dest!: skipTo_bounds)
  have body: ?thesis if "caseDefinition w line state = (r, w')"
    using that by (auto simp: caseDefinition_def split: sum.splits if_splits)
  show ?thesis
    using assms none comment string skip body by (cases state) auto
qed


lemma scssSwitch_poke_after_skipSpace:
  assumes "j < line"
    and "j + 1 < line \<or> state = P_STATE_IN_DEFINITION
         \<or> state = P_STATE_NONE
           \<and> (peek (cur w) line = Inr (CHR ''*'') \<longrightarrow> (cur w ! j = CHR ''/'') = (x = CHR ''/''))"
    and "skipSpace (cur w) line = Inr line1"
  shows "scssSwitch (poke j x w) line1 state = unlessRead j x w (scssSwitch w line1 state)"
proof -
  from assms(3) have le: "line \<le> line1" by (simp add: skipSpace_bounds)
  show ?thesis
  proof (cases "line1 = line")
    case True
    with assms(1,2) show ?thesis by (intro scssSwitch_poke) simp_all
  next
    case False
    with le assms(1) have "j + 1 < line1" by simp
    then show ?thesis by (intro scssSwitch_poke) simp_all
  qed
qed

lemma parseScssLine_poke:
  "j < line \<Longrightarrow>
   j + 1 < line \<or> state = P_STATE_IN_DEFINITION
     \<or> state = P_STATE_NONE
       \<and> (peek (cur w) line = Inr (CHR ''*'') \<longrightarrow> (cur w ! j = CHR ''/'') = (x = CHR ''/'')) \<Longrightarrow>
   parseScssLine (poke j x w) line state = unlessRead j x w (parseScssLine w line state)"
proof (induction w line state rule: parseScssLine_cases_induct)
  case (fault w line state f)
  then show ?case by (simp add: parseScssLine_fault peek_poke unlessRead_def)
next
  case (finish w line state)
  then show ?case by (simp add: parseScssLine_end peek_poke unlessRead_def)
next
  case (switch_fault w line state c line1 f w1)
  have c: "peek (cur (poke j x w)) line = Inr c"
    and sk: "skipSpace (cur (poke j x w)) line = Inr line1"
    using switch_fault by (simp_all add: peek_poke skipSpace_poke)
  have sw: "scssSwitch (poke j x w) line1 state =
      (Inl f, if pending w1 = pending w then poke j x w1 else w1)"
    using scssSwitch_poke_after_skipSpace [OF switch_fault(5,6,3)] switch_fault(4)
    by (simp add: unlessRead_def)
  show ?case
    using parseScssLine_switch_fault [OF c switch_fault(2) sk sw]
      parseScssLine_switch_fault [OF switch_fault(1-4)]
    by (simp add: unlessRead_def)
next
  case (return w line state c line1 st w1)
  have c: "peek (cur (poke j x w)) line = Inr c"
    and sk: "skipSpace (cur (poke j x w)) line = Inr line1"
    using return by (simp_all add: peek_poke skipSpace_poke)
  have sw: "scssSwitch (poke j x w) line1 state =
      (Inr (Return st), if pending w1 = pending w then poke j x w1 else w1)"
    using scssSwitch_poke_after_skipSpace [OF return(5,6,3)] return(4)
    by (simp add: unlessRead_def)
  show ?case
    using parseScssLine_return [OF c return(2) sk sw] parseScssLine_return [OF return(1-4)]
    by (simp add: unlessRead_def)
next
  case (null w line state c line1 st w1)
  have c: "peek (cur (poke j x w)) line = Inr c"
    and sk: "skipSpace (cur (poke j x w)) line = Inr line1"
    using null by (simp_all add: peek_poke skipSpace_poke)
  have sw: "scssSwitch (poke j x w) line1 state =
      (Inr (Break st None), if pending w1 = pending w then poke j x w1 else w1)"
    using scssSwitch_poke_after_skipSpace [OF null(5,6,3)] null(4)
    by (simp add: unlessRead_def)
  show ?case
    using parseScssLine_null [OF c null(2) sk sw] parseScssLine_null [OF null(1-4)]
    by (simp add: unlessRead_def)
next
  case (continue w line state c line1 st line2 w1)
  have c: "peek (cur (poke j x w)) line = Inr c"
    and sk: "skipSpace (cur (poke j x w)) line = Inr line1"
    using continue by (simp_all add: peek_poke skipSpace_poke)
  have sw: "scssSwitch (poke j x w) line1 state =
      (Inr (Break st (Some line2)), if pending w1 = pending w then poke j x w1 else w1)"
    using scssSwitch_poke_after_skipSpace [OF continue(6,7,3)] continue(4)
    by (simp add: unlessRead_def)
  have poked: "parseScssLine (poke j x w) line state =
      parseScssLine (if pending w1 = pending w then poke j x w1 else w1) (line2 + 1) st"
    using c continue(2) sk sw by (rule parseScssLine_next)
  have plain: "parseScssLine w line state = parseScssLine w1 (line2 + 1) st"
    using continue(1-4) by (rule parseScssLine_next)
  from continue(3) have le: "line \<le> line1" by (simp add: skipSpace_bounds)
  show ?case
  proof (cases "pending w1 = pending w")
    case True
    with scssSwitch_same_line [OF continue(4)] have "line1 \<le> line2" by simp
    with le continue(6) have "j + 1 < line2 + 1" by simp
    then have "parseScssLine (poke j x w1) (line2 + 1) st =
        unlessRead j x w1 (parseScssLine w1 (line2 + 1) st)"
      by (intro continue(5)) simp_all
    with True poked plain show ?thesis by (simp add: unlessRead_def)
  next
    case False
    with scssSwitch_same_line [OF continue(4)]
    have "length (pending w1) < length (pending w)" by simp
    moreover obtain r w0 where r: "parseScssLine w1 (line2 + 1) st = (r, w0)"
      by (cases "parseScssLine w1 (line2 + 1) st")
    moreover from parseScssLine_pending [OF r]
    have "length (pending w0) \<le> length (pending w1)" .
    ultimately have "pending w0 \<noteq> pending w" by auto
    with False poked plain r show ?thesis by (simp add: unlessRead_def)
  qed
qed

lemma declLoop_body:
  "drop cp (cur w) = body @ t # rest \<Longrightarrow>
   list_all (\<lambda>c. isScssDeclarationAllowedChar c \<and> c \<noteq> NUL \<and> c \<noteq> CHR '','' \<and> c \<noteq> CHR ''{'')
     body \<Longrightarrow>
   t = CHR '','' \<or> t = CHR ''{'' \<Longrightarrow>
   declLoop w name cp kind =
     (Inr (if t = CHR '','' then P_STATE_NONE else P_STATE_IN_DEFINITION,
           Some (cp + length body + 1)),
      makeScssSimpleTag (name @ body) kind w)"
proof (induction body arbitrary: name cp)
  case Nil
  then have "peek (cur w) cp = Inr t" by (simp add: peek_drop)
  with Nil(3) show ?case by (auto simp: declLoop_comma declLoop_brace)
next
  case (Cons c body)
  from Cons.prems have c: "peek (cur w) cp = Inr c" by (simp add: peek_drop)
  from Cons.prems have d: "drop (Suc cp) (cur w) = body @ t # rest"
    by (simp add: drop_Suc_tail)
  from Cons.prems
  have ok: "isScssDeclarationAllowedChar c" "c \<noteq> NUL" "c \<noteq> CHR '',''" "c \<noteq> CHR ''{''"
    by simp_all
  have "declLoop w (vStringPut name c) (Suc cp) kind =
     (Inr (if t = CHR '','' then P_STATE_NONE else P_STATE_IN_DEFINITION,
           Some (Suc cp + length body + 1)),
      makeScssSimpleTag (vStringPut name c @ body) kind w)"
    using d Cons.prems by (intro Cons.IH) simp_all
  moreover have "declLoop w name cp kind = declLoop w (vStringPut name c) (Suc cp) kind"
    using declLoop_step [OF c ok] by simp
  ultimately show ?case by (simp add: vStringPut_def)
qed


lemma dispatch_declaration:
  assumes "peek (cur w0) line0 = Inr c0"
    and "isalnum c0 \<or> c0 = CHR ''.'' \<or> c0 = CHR ''#''"
    and "declLoop w0 [] line0
           (if isalnum c0 then K_SELECTOR else if c0 = CHR ''.'' then K_CLASS else K_ID) =
         declLoop w name cp
           (if isalnum c0 then K_SELECTOR else if c0 = CHR ''.'' then K_CLASS else K_ID)"
    and "drop cp (cur w) = body @ t # rest"
    and "list_all (\<lambda>c. isScssDeclarationAllowedChar c \<and> c \<noteq> NUL \<and> c \<noteq> CHR '','' \<and> c \<noteq> CHR ''{'')
           body"
    and "t = CHR '','' \<or> t = CHR ''{''"
  shows "parseScssLine w0 line0 P_STATE_NONE =
     parseScssLine
       (makeScssSimpleTag (name @ body)
          (if isalnum c0 then K_SELECTOR else if c0 = CHR ''.'' then K_CLASS else K_ID) w)
       (cp + length body + 2)
       (if t = CHR '','' then P_STATE_NONE else P_STATE_IN_DEFINITION)"
proof -
  define kind where
    "kind = (if isalnum c0 then K_SELECTOR else if c0 = CHR ''.'' then K_CLASS else K_ID)"
  from assms(2) have nn: "c0 \<noteq> NUL" by (auto simp: isalnum_def)
  from assms(2) have ns: "\<not> isspace c0" by (auto simp: isspace_def isalnum_def)
  from assms(1) ns have sk: "skipSpace (cur w0) line0 = Inr line0" by (rule skipSpace_stay)
  have run: "declLoop w name cp kind =
     (Inr (if t = CHR '','' then P_STATE_NONE else P_STATE_IN_DEFINITION,
           Some (cp + length body + 1)),
      makeScssSimpleTag (name @ body) kind w)"
    using assms(4-6) by (rule declLoop_body)
  have "caseNone w0 line0 P_STATE_NONE = callDeclaration (parseScssDeclaration w0 line0 kind)"
    using assms(1,2) by (auto simp: caseNone_def kind_def)
  with run assms(3) have sw: "scssSwitch w0 line0 P_STATE_NONE =
      (Inr (Break (if t = CHR '','' then P_STATE_NONE else P_STATE_IN_DEFINITION)
              (Some (cp + length body + 1))),
       makeScssSimpleTag (name @ body) kind w)"
    by (simp add: callDeclaration_def parseScssDeclaration_def kind_def)
  have a: "cp + length body + 1 + 1 = cp + length body + 2" by simp
  from parseScssLine_next [OF assms(1) nn sk sw] show ?thesis
    unfolding kind_def a .
qed

lemma resumed_scan_poke:
  assumes "st = P_STATE_IN_DEFINITION
         \<or> st = P_STATE_NONE
           \<and> (peek (cur w) (p + 1) = Inr (CHR ''*'') \<longrightarrow> (cur w ! p = CHR ''/'') = (x = CHR ''/''))"
  shows "fst (parseScssLine (w\<lparr>cur := (cur w)[p := x]\<rparr>) (p + 1) st) =
           fst (parseScssLine w (p + 1) st)
       \<and> tags (snd (parseScssLine (w\<lparr>cur := (cur w)[p := x]\<rparr>) (p + 1) st)) =
           tags (snd (parseScssLine w (p + 1) st))
       \<and> pending (snd (parseScssLine (w\<lparr>cur := (cur w)[p := x]\<rparr>) (p + 1) st)) =
           pending (snd (parseScssLine w (p + 1) st))"
proof -
  have "parseScssLine (poke p x w) (p + 1) st = unlessRead p x w (parseScssLine w (p + 1) st)"
    using assms by (intro parseScssLine_poke) simp_all
  then show ?thesis
    by (cases "parseScssLine w (p + 1) st") (simp add: unlessRead_def poke_def [symmetric])
qed

lemma after_terminator:
  assumes "drop cp buf = body @ t # x # rest"
  shows "buf ! (cp + length body + 1) = x"
    and "(take 1 rest \<noteq> ''*'') \<Longrightarrow> peek buf (cp + length body + 2) \<noteq> Inr (CHR ''*'')"
    and "drop cp (buf[cp + length body + 1 := x']) = body @ t # x' # rest"
proof -
  have len: "cp + length body + 1 < length buf"
  proof -
    have "length (drop cp buf) = length body + 2 + length rest"
      by (simp add: assms)
    then show ?thesis by simp
  qed
  have "buf ! (cp + (length body + 1)) = drop cp buf ! (length body + 1)"
    using len by (simp add: nth_drop)
  also have "\<dots> = (body @ t # x # rest) ! (length body + 1)"
    by (simp only: assms)
  also have "\<dots> = x"
    by (simp only: nth_append_length_plus) simp
  finally show "buf ! (cp + length body + 1) = x" by (simp add: add.assoc)
  have "drop (length body + 2 + cp) buf = drop (length body + 2) (drop cp buf)"
    by (simp only: drop_drop)
  also have "\<dots> = drop (length body + 2) (body @ t # x # rest)"
    by (simp only: assms)
  also have "\<dots> = rest"
    by simp
  finally have dj: "drop (cp + length body + 2) buf = rest"
    by (simp add: add.commute add.left_commute)
  show "peek buf (cp + length body + 2) \<noteq> Inr (CHR ''*'')" if "take 1 rest \<noteq> ''*''"
  proof (cases rest)
    case Nil
    with dj have "length buf \<le> cp + length body + 2" by simp
    then show ?thesis by (auto simp: peek_def)
  next
    case (Cons r rs)
    with dj have "peek buf (cp + length body + 2) = Inr r" by (simp add: peek_drop)
    with Cons that show ?thesis by simp
  qed
  have "drop cp (buf[cp + length body + 1 := x']) = (drop cp buf)[length body + 1 := x']"
    by (simp add: drop_update_swap)
  also have "\<dots> = (body @ t # x # rest)[length body + 1 := x']"
    by (simp only: assms)
  also have "\<dots> = body @ t # x' # rest"
    by (simp only: list_update_append) simp
  finally show "drop cp (buf[cp + length body + 1 := x']) = body @ t # x' # rest" .
qed

subsection \<open>Scans along one line\<close>

lemma skipSpace_stops_before:
  "skipSpace buf line = Inr line1 \<Longrightarrow> line \<le> k \<Longrightarrow> k < length buf \<Longrightarrow> \<not> isspace (buf ! k) \<Longrightarrow>
   line1 \<le> k"
proof (induction buf line rule: skipSpace.induct)
  case (1 buf line)
  from "1.prems" have c: "peek buf line = Inr (buf ! line)" by (simp add: peek_def)
  show ?case
  proof (cases "isspace (buf ! line)")
    case True
    with "1.prems" have "line \<noteq> k" by auto
    with "1.prems" have "line + 1 \<le> k" by simp
    moreover from "1.prems" c True have "skipSpace buf (line + 1) = Inr line1"
      by (simp add: skipSpace.simps [of buf line])
    ultimately show ?thesis using "1.IH" [OF c True] "1.prems" by simp
  next
    case False
    with "1.prems" c have "line1 = line" by (simp add: skipSpace.simps [of buf line])
    with "1.prems" show ?thesis by simp
  qed
qed

lemma string_scan_to_quote:
  assumes "(state, q) \<in> {(P_STATE_IN_SINGLE_STRING, CHR 0x27), (P_STATE_IN_DOUBLE_STRING, CHR 0x22)}"
    and "0 < line" and "line \<le> k" and "k < length (cur w)"
    and "\<forall>i. line \<le> i \<and> i < k \<longrightarrow>
           cur w ! i \<noteq> NUL \<and> \<not> (cur w ! i = q \<and> cur w ! (i - 1) \<noteq> CHR 0x5C)"
    and "cur w ! k = q" and "cur w ! (k - 1) \<noteq> CHR 0x5C"
  shows "parseScssLine w line state = parseScssLine w (k + 1) P_STATE_IN_DEFINITION"
  using assms(2,3,5)
proof (induction "k - line" arbitrary: line rule: less_induct)
  case less
  from assms(1,6) have qk: "\<not> isspace (cur w ! k)" "cur w ! k \<noteq> NUL"
    by (auto simp: isspace_def)
  from less.prems assms(4) have lt: "line < length (cur w)" by simp
  then have c: "peek (cur w) line = Inr (cur w ! line)" by (simp add: peek_def)
  have nn: "cur w ! line \<noteq> NUL"
  proof (cases "line = k")
    case True
    with qk show ?thesis by simp
  next
    case False
    with less.prems show ?thesis by simp
  qed
  obtain line1 where sk: "skipSpace (cur w) line = Inr line1"
    using skipSpace_total [of line "cur w"] lt by auto
  from sk have le1: "line \<le> line1" by (simp add: skipSpace_bounds)
  from skipSpace_stops_before [OF sk less.prems(2) assms(4) qk(1)] have le2: "line1 \<le> k" .
  with assms(4) have lt1: "line1 < length (cur w)" by simp
  from le1 less.prems(1) have pos: "0 < line1" by simp
  have sw: "scssSwitch w line1 state =
      (Inr (Break (if cur w ! line1 = q \<and> cur w ! (line1 - 1) \<noteq> CHR 0x5C
                   then P_STATE_IN_DEFINITION else state) (Some line1)), w)"
    using assms(1) lt1 pos by (auto simp: caseString_def peek_def peekPrev_def)
  show ?case
  proof (cases "line1 = k")
    case True
    with sw assms(6,7) have "scssSwitch w line1 state =
        (Inr (Break P_STATE_IN_DEFINITION (Some k)), w)"
      by simp
    from parseScssLine_next [OF c nn sk this] show ?thesis .
  next
    case False
    with le2 have lt2: "line1 < k" by simp
    with le1 less.prems(3)
    have "\<not> (cur w ! line1 = q \<and> cur w ! (line1 - 1) \<noteq> CHR 0x5C)" by simp
    with sw have "scssSwitch w line1 state = (Inr (Break state (Some line1)), w)"
      by auto
    from parseScssLine_next [OF c nn sk this]
    have "parseScssLine w line state = parseScssLine w (line1 + 1) state" .
    also have "\<dots> = parseScssLine w (k + 1) P_STATE_IN_DEFINITION"
    proof (rule less.hyps)
      show "k - (line1 + 1) < k - line" using le1 lt2 by simp
      show "0 < line1 + 1" by simp
      show "line1 + 1 \<le> k" using lt2 by simp
      show "\<forall>i. line1 + 1 \<le> i \<and> i < k \<longrightarrow>
           cur w ! i \<noteq> NUL \<and> \<not> (cur w ! i = q \<and> cur w ! (i - 1) \<noteq> CHR 0x5C)"
        using less.prems(3) le1 by simp
    qed
    finally show ?thesis .
  qed
qed

lemma at_rule_resume:
  assumes "drop line (cur w) = CHR ''@'' # kw @ s # rest"
    and "scssSwitch w line P_STATE_NONE = (Inr (Break st (Some (line + 1 + length kw))), w)"
  shows "parseScssLine w line P_STATE_NONE = parseScssLine w (line + length kw + 2) st"
proof -
  from assms(1) have at: "peek (cur w) line = Inr (CHR ''@'')" by (rule peek_drop)
  then have sk: "skipSpace (cur w) line = Inr line"
    by (rule skipSpace_stay) (simp add: isspace_def)
  have a: "line + 1 + length kw + 1 = line + length kw + 2" by simp
  from parseScssLine_next [OF at _ sk assms(2)] show ?thesis
    unfolding a by simp
qed

section \<open>Claims\<close>

subsection \<open>C1\<close>

text \<open>
  C1, as stated: scanning the single line \<open>.foo, .bar { color: red; }\<close> from the state
  \<open>P_STATE_NONE\<close> emits exactly the tags (class, \<open>foo\<close>) and (class, \<open>bar\<close>). The claim is
  false: \<open>parseScssDeclaration\<close> starts accumulating at the character that made the
  dispatcher call it, so the dot is part of each name.
\<close>

theorem C1_names_without_dot_refuted:
  "tags (snd (findScssTags (input [''.foo, .bar { color: red; }''])))
     \<noteq> [(K_CLASS, ''foo''), (K_CLASS, ''bar'')]"
  by code_simp

text \<open>
  C1, amended: scanning the single line \<open>.foo, .bar { color: red; }\<close> from the state
  \<open>P_STATE_NONE\<close> emits exactly the tags (class, \<open>.foo\<close>) and (class, \<open>.bar\<close>), in that
  order, each name with its leading dot; it emits no tag for \<open>color\<close>, and the scan ends
  in the state \<open>P_STATE_NONE\<close>.
\<close>

theorem C1_class_tags_with_dot:
  "findScssTags (input [''.foo, .bar { color: red; }'']) =
     (Inr P_STATE_NONE,
      \<lparr>cur = ''.foo, .bar { color: red; }'', pending = [],
       tags = [(K_CLASS, ''.foo''), (K_CLASS, ''.bar'')]\<rparr>)
   \<and> ''color'' \<notin> snd ` set (tags (snd (findScssTags (input [''.foo, .bar { color: red; }'']))))"
  by code_simp

subsection \<open>C2\<close>

text \<open>
  C2, as stated: after the declaration scanner returns on a \<open>,\<close> or \<open>{\<close>, the dispatcher's
  \<open>line++\<close> steps over the next character, which is therefore never examined. That last
  part is false: stepped over as it is, the character is still read as \<open>*(line-1)\<close> when
  the character after it is a \<open>*\<close> met in state \<open>P_STATE_NONE\<close>. The lines \<open>.a,/*\<close> and
  \<open>.a,x*\<close> differ only in the character after the comma and end in different states.
\<close>

theorem C2_character_after_comma_is_read_by_lookback:
  "findScssTags (input [''.a,/*'']) =
     (Inr P_STATE_IN_COMMENT, \<lparr>cur = ''.a,/*'', pending = [], tags = [(K_CLASS, ''.a'')]\<rparr>)
   \<and> findScssTags (input [''.a,x*'']) =
     (Inr P_STATE_NONE, \<lparr>cur = ''.a,x*'', pending = [], tags = [(K_CLASS, ''.a'')]\<rparr>)"
  by code_simp

text \<open>
  C2, amended. The dispatcher is at the start \<open>c0\<close> of a declaration, and the scanner it
  calls there comes (on this line or on a continuation line, with \<open>name\<close> accumulated so
  far) to a rest of line \<open>body @ t # x # rest\<close>, where \<open>body\<close> continues the declaration,
  \<open>t\<close> is \<open>,\<close> or \<open>{\<close> and \<open>x\<close> is the character after it. Then the scan goes on two
  characters after the terminator, stepping over \<open>x\<close>, in the state \<open>P_STATE_NONE\<close> after
  \<open>,\<close> and \<open>P_STATE_IN_DEFINITION\<close> after \<open>{\<close>. Replacing \<open>x\<close> by any \<open>x'\<close> changes neither
  the returned state or fault nor the tags, unless \<open>t\<close> is \<open>,\<close>, the character after \<open>x\<close>
  is \<open>*\<close>, and exactly one of \<open>x\<close> and \<open>x'\<close> is \<open>/\<close> (the lookback of the comment test).
  For a declaration that starts and ends on the current line this is said of the line
  itself. In the line \<open>.a,.b{\<close> the second clause is tagged from \<open>b\<close> as a selector, and
  the line \<open>.a{}\<close> ends in \<open>P_STATE_IN_DEFINITION\<close>.
\<close>

theorem C2_character_after_terminator_is_stepped_over:
  assumes "peek (cur w0) line0 = Inr c0"
    and "isalnum c0 \<or> c0 = CHR ''.'' \<or> c0 = CHR ''#''"
    and "declLoop w0 [] line0
           (if isalnum c0 then K_SELECTOR else if c0 = CHR ''.'' then K_CLASS else K_ID) =
         declLoop w name cp
           (if isalnum c0 then K_SELECTOR else if c0 = CHR ''.'' then K_CLASS else K_ID)"
    and "drop cp (cur w) = body @ t # x # rest"
    and "list_all (\<lambda>c. isScssDeclarationAllowedChar c \<and> c \<noteq> NUL \<and> c \<noteq> CHR '','' \<and> c \<noteq> CHR ''{'')
           body"
    and "t = CHR '','' \<or> t = CHR ''{''"
    and "t = CHR ''{'' \<or> take 1 rest \<noteq> ''*'' \<or> (x = CHR ''/'') = (x' = CHR ''/'')"
  shows "parseScssLine w0 line0 P_STATE_NONE =
       parseScssLine
         (makeScssSimpleTag (name @ body)
            (if isalnum c0 then K_SELECTOR else if c0 = CHR ''.'' then K_CLASS else K_ID) w)
         (cp + length body + 2)
         (if t = CHR '','' then P_STATE_NONE else P_STATE_IN_DEFINITION)
   \<and> fst (parseScssLine
           (makeScssSimpleTag (name @ body)
              (if isalnum c0 then K_SELECTOR else if c0 = CHR ''.'' then K_CLASS else K_ID)
              (w\<lparr>cur := (cur w)[cp + length body + 1 := x']\<rparr>))
           (cp + length body + 2)
           (if t = CHR '','' then P_STATE_NONE else P_STATE_IN_DEFINITION)) =
       fst (parseScssLine w0 line0 P_STATE_NONE)
   \<and> tags (snd (parseScssLine
           (makeScssSimpleTag (name @ body)
              (if isalnum c0 then K_SELECTOR else if c0 = CHR ''.'' then K_CLASS else K_ID)
              (w\<lparr>cur := (cur w)[cp + length body + 1 := x']\<rparr>))
           (cp + length body + 2)
           (if t = CHR '','' then P_STATE_NONE else P_STATE_IN_DEFINITION))) =
       tags (snd (parseScssLine w0 line0 P_STATE_NONE))
   \<and> (w0 = w \<and> line0 = cp \<and> name = [] \<longrightarrow>
        fst (parseScssLine (w\<lparr>cur := (cur w)[cp + length body + 1 := x']\<rparr>) cp P_STATE_NONE) =
          fst (parseScssLine w cp P_STATE_NONE)
        \<and> tags (snd (parseScssLine (w\<lparr>cur := (cur w)[cp + length body + 1 := x']\<rparr>) cp
                        P_STATE_NONE)) =
          tags (snd (parseScssLine w cp P_STATE_NONE)))
   \<and> tags (snd (findScssTags (input [''.a,.b{'']))) = [(K_CLASS, ''.a''), (K_SELECTOR, ''b'')]
   \<and> findScssTags (input [''.a{}'']) =
       (Inr P_STATE_IN_DEFINITION,
        \<lparr>cur = ''.a{}'', pending = [], tags = [(K_CLASS, ''.a'')]\<rparr>)"
proof -
  define kind where
    "kind = (if isalnum c0 then K_SELECTOR else if c0 = CHR ''.'' then K_CLASS else K_ID)"
  define st where "st = (if t = CHR '','' then P_STATE_NONE else P_STATE_IN_DEFINITION)"
  define p where "p = cp + length body + 1"
  define W where "W = makeScssSimpleTag (name @ body) kind w"
  have p1: "cp + length body + 2 = p + 1" by (simp add: p_def)
  from assms(4) have d: "drop cp (cur w) = body @ t # (x # rest)" by simp
  have first: "parseScssLine w0 line0 P_STATE_NONE = parseScssLine W (p + 1) st"
    unfolding W_def kind_def st_def p1 [symmetric]
    using assms(1,2,3) d assms(5,6) by (rule dispatch_declaration)
  have Wx: "makeScssSimpleTag (name @ body) kind (w\<lparr>cur := (cur w)[p := x']\<rparr>) =
      W\<lparr>cur := (cur W)[p := x']\<rparr>"
    by (simp add: W_def makeScssSimpleTag_def makeSimpleTag_def)
  have lb: "st = P_STATE_IN_DEFINITION
         \<or> st = P_STATE_NONE
           \<and> (peek (cur W) (p + 1) = Inr (CHR ''*'') \<longrightarrow> (cur W ! p = CHR ''/'') = (x' = CHR ''/''))"
    using assms(6,7) after_terminator(1,2) [OF assms(4)]
    by (auto simp: st_def W_def p_def p1 [symmetric])
  note second = resumed_scan_poke [OF lb]
  have third: "fst (parseScssLine (w\<lparr>cur := (cur w)[p := x']\<rparr>) cp P_STATE_NONE) =
          fst (parseScssLine w cp P_STATE_NONE)
        \<and> tags (snd (parseScssLine (w\<lparr>cur := (cur w)[p := x']\<rparr>) cp P_STATE_NONE)) =
          tags (snd (parseScssLine w cp P_STATE_NONE))"
    if same: "w0 = w \<and> line0 = cp \<and> name = []"
  proof -
    let ?w' = "w\<lparr>cur := (cur w)[p := x']\<rparr>"
    have lt: "cp < p" by (simp add: p_def)
    have c': "peek (cur ?w') cp = Inr c0"
      using assms(1) same lt by (simp add: peek_poke)
    have d': "drop cp (cur ?w') = body @ t # (x' # rest)"
      using after_terminator(3) [OF assms(4), of x'] by (simp add: p_def)
    have "parseScssLine ?w' cp P_STATE_NONE =
        parseScssLine (makeScssSimpleTag ([] @ body) kind ?w') (p + 1) st"
      unfolding kind_def st_def p1 [symmetric]
      using c' assms(2) refl d' assms(5,6) by (rule dispatch_declaration)
    with same have "parseScssLine ?w' cp P_STATE_NONE =
        parseScssLine (W\<lparr>cur := (cur W)[p := x']\<rparr>) (p + 1) st"
      using Wx by simp
    with first same second show ?thesis by simp
  qed
  have ex1: "tags (snd (findScssTags (input [''.a,.b{'']))) =
      [(K_CLASS, ''.a''), (K_SELECTOR, ''b'')]"
    by code_simp
  have ex2: "findScssTags (input [''.a{}'']) =
       (Inr P_STATE_IN_DEFINITION,
        \<lparr>cur = ''.a{}'', pending = [], tags = [(K_CLASS, ''.a'')]\<rparr>)"
    by code_simp
  from first second third ex1 ex2 Wx show ?thesis
    unfolding W_def kind_def st_def p1 p_def by simp
qed

theorem C2_witness:
  "parseScssLine \<lparr>cur = ''.a,.b{'', pending = [], tags = []\<rparr> 0 P_STATE_NONE =
     parseScssLine \<lparr>cur = ''.a,.b{'', pending = [], tags = [(K_CLASS, ''.a'')]\<rparr> 4 P_STATE_NONE
   \<and> fst (parseScssLine \<lparr>cur = ''.a,zb{'', pending = [], tags = []\<rparr> 0 P_STATE_NONE) =
     fst (parseScssLine \<lparr>cur = ''.a,.b{'', pending = [], tags = []\<rparr> 0 P_STATE_NONE)
   \<and> tags (snd (parseScssLine \<lparr>cur = ''.a,zb{'', pending = [], tags = []\<rparr> 0 P_STATE_NONE)) =
     tags (snd (parseScssLine \<lparr>cur = ''.a,.b{'', pending = [], tags = []\<rparr> 0 P_STATE_NONE))
   \<and> parseScssLine \<lparr>cur = ''.foo'', pending = [''.bar{ }''], tags = []\<rparr> 0 P_STATE_NONE =
     parseScssLine \<lparr>cur = ''.bar{ }'', pending = [], tags = [(K_CLASS, ''.foo.bar'')]\<rparr> 6
       P_STATE_IN_DEFINITION"
proof -
  have reach: "declLoop \<lparr>cur = ''.foo'', pending = [''.bar{ }''], tags = []\<rparr> [] 0 K_CLASS =
      declLoop \<lparr>cur = ''.bar{ }'', pending = [], tags = []\<rparr> ''.foo.'' 1 K_CLASS"
    by code_simp
  show ?thesis
    using C2_character_after_terminator_is_stepped_over
        [of "\<lparr>cur = ''.a,.b{'', pending = [], tags = []\<rparr>" 0 "CHR ''.''"
            "\<lparr>cur = ''.a,.b{'', pending = [], tags = []\<rparr>" "[]" 0 "''.a''" "CHR '',''"
            "CHR ''.''" "''b{''" "CHR ''z''"]
      C2_character_after_terminator_is_stepped_over
        [of "\<lparr>cur = ''.foo'', pending = [''.bar{ }''], tags = []\<rparr>" 0 "CHR ''.''"
            "\<lparr>cur = ''.bar{ }'', pending = [], tags = []\<rparr>" "''.foo.''" 1 "''bar''"
            "CHR ''{''" "CHR '' ''" "''}''" "CHR '' ''"]
      reach
    by (simp add: peek_def isalnum_def isspace_def isScssDeclarationAllowedChar_def
        makeScssSimpleTag_def makeSimpleTag_def vStringStripTrailing_def eval_nat_numeral)
qed

subsection \<open>C3\<close>

text \<open>
  C3 asks that a lookback test whose triggering character is the first character of the line
  (a \<open>*\<close> in state \<open>P_STATE_NONE\<close>, a \<open>/\<close> in \<open>P_STATE_IN_COMMENT\<close>, a quote in a string
  state) reads nothing before the start of the line buffer. The code evaluates \<open>*(line-1)\<close>
  there: with such a character at index 0, \<open>parseScssLine\<close> reads the byte before the
  buffer.
\<close>

theorem C3_lookback_at_line_start_reads_before_buffer:
  assumes "cur w = c # rest"
    and "(state, c) \<in> {(P_STATE_NONE, CHR ''*''), (P_STATE_IN_COMMENT, CHR ''/''),
           (P_STATE_IN_SINGLE_STRING, CHR 0x27), (P_STATE_IN_DOUBLE_STRING, CHR 0x22)}"
  shows "parseScssLine w 0 state = (Inl ReadBeforeStart, w)"
proof -
  from assms(1) have c: "peek (cur w) 0 = Inr c" by (simp add: peek_def)
  from assms(2) have ns: "\<not> isspace c" and nn: "c \<noteq> NUL"
    by (auto simp: isspace_def)
  from c ns have sk: "skipSpace (cur w) 0 = Inr 0" by (rule skipSpace_stay)
  from assms(2) c have "scssSwitch w 0 state = (Inl ReadBeforeStart, w)"
    by (auto simp: caseNone_def caseComment_def caseString_def peekPrev_def isalnum_def)
  with c nn sk show ?thesis by (rule parseScssLine_switch_fault)
qed

theorem C3_witness:
  "parseScssLine \<lparr>cur = ''* { margin: 0 }'', pending = [], tags = []\<rparr> 0 P_STATE_NONE =
     (Inl ReadBeforeStart, \<lparr>cur = ''* { margin: 0 }'', pending = [], tags = []\<rparr>)
   \<and> parseScssLine \<lparr>cur = ''/* x */'', pending = [], tags = []\<rparr> 0 P_STATE_IN_COMMENT =
     (Inl ReadBeforeStart, \<lparr>cur = ''/* x */'', pending = [], tags = []\<rparr>)"
  using C3_lookback_at_line_start_reads_before_buffer
      [of "\<lparr>cur = ''* { margin: 0 }'', pending = [], tags = []\<rparr>" "CHR ''*''"
          "'' { margin: 0 }''" P_STATE_NONE]
    C3_lookback_at_line_start_reads_before_buffer
      [of "\<lparr>cur = ''/* x */'', pending = [], tags = []\<rparr>" "CHR ''/''"
          "''* x */''" P_STATE_IN_COMMENT]
  by simp

subsection \<open>C4\<close>

text \<open>
  C4 asks that no line is read beyond its terminating NUL. The code does read beyond it:
  on a line of whitespace only (the inner loop stops on the terminator and \<open>line++\<close> steps
  over it), on an at-rule keyword that runs to the end of the line (the keyword loop stops
  only at whitespace), on an \<open>@import\<close> line without \<open>;\<close> (the scan stops on the terminator
  and \<open>line++\<close> steps over it), on a line that ends with the \<open>{\<close> of a declaration
  (\<open>parseScssDeclaration\<close> returns the pointer to the terminator and \<open>line++\<close> steps over
  it), and on an empty line that continues a declaration (\<open>parseScssDeclaration\<close> puts the
  first byte of the new line, the terminator, into the buffer unexamined and advances over
  it).
\<close>

theorem C4_reads_past_the_terminator:
  "findScssTags (input ['' '']) =
     (Inl ReadPastEnd, \<lparr>cur = '' '', pending = [], tags = []\<rparr>)
   \<and> findScssTags (input [''@font-face{'']) =
     (Inl ReadPastEnd, \<lparr>cur = ''@font-face{'', pending = [], tags = []\<rparr>)
   \<and> findScssTags (input [''@import url(x.css)'', ''.after {}'']) =
     (Inl ReadPastEnd, \<lparr>cur = ''@import url(x.css)'', pending = [''.after {}''], tags = []\<rparr>)
   \<and> findScssTags (input [''.foo {'']) =
     (Inl ReadPastEnd, \<lparr>cur = ''.foo {'', pending = [], tags = [(K_CLASS, ''.foo'')]\<rparr>)
   \<and> findScssTags (input [''.foo'', [], ''.bar {}'']) =
     (Inl ReadPastEnd, \<lparr>cur = [], pending = [''.bar {}''], tags = []\<rparr>)"
  by code_simp

subsection \<open>C5\<close>

text \<open>
  C5: tag emission strips the trailing whitespace of the buffer only for the kind class. A
  selector or id tag carries the buffer as it is, a class tag carries the buffer without the
  whitespace at its end (the buffer is the stripped name followed by whitespace only, and the
  stripped name does not end in whitespace). The line \<open>p > span { }\<close> emits the single tag
  (selector, \<open>p > span \<close>), with the space before the brace.
\<close>

theorem C5_only_class_strips_trailing_whitespace:
  fixes w :: world
  shows "makeScssSimpleTag name K_SELECTOR w = w\<lparr>tags := tags w @ [(K_SELECTOR, name)]\<rparr>
   \<and> makeScssSimpleTag name K_ID w = w\<lparr>tags := tags w @ [(K_ID, name)]\<rparr>
   \<and> makeScssSimpleTag name K_CLASS w =
       w\<lparr>tags := tags w @ [(K_CLASS, vStringStripTrailing name)]\<rparr>
   \<and> (\<exists>ws. name = vStringStripTrailing name @ ws \<and> list_all isspace ws)
   \<and> takeWhile isspace (rev (vStringStripTrailing name)) = []
   \<and> findScssTags (input [''p > span { }'']) =
       (Inr P_STATE_NONE,
        \<lparr>cur = ''p > span { }'', pending = [], tags = [(K_SELECTOR, ''p > span '')]\<rparr>)"
proof -
  have "findScssTags (input [''p > span { }'']) =
       (Inr P_STATE_NONE,
        \<lparr>cur = ''p > span { }'', pending = [], tags = [(K_SELECTOR, ''p > span '')]\<rparr>)"
    by code_simp
  then show ?thesis
    using vStringStripTrailing_split [of name] vStringStripTrailing_stripped [of name]
    by (simp add: makeScssSimpleTag_def makeSimpleTag_def)
qed

theorem C5_witness:
  "makeScssSimpleTag ''p > span '' K_SELECTOR (input []) =
     \<lparr>cur = [], pending = [], tags = [(K_SELECTOR, ''p > span '')]\<rparr>
   \<and> makeScssSimpleTag ''#top '' K_ID (input []) =
     \<lparr>cur = [], pending = [], tags = [(K_ID, ''#top '')]\<rparr>
   \<and> makeScssSimpleTag ''.foo  '' K_CLASS (input []) =
     \<lparr>cur = [], pending = [], tags = [(K_CLASS, ''.foo'')]\<rparr>"
  using C5_only_class_strips_trailing_whitespace [of "''p > span ''" "input []"]
    C5_only_class_strips_trailing_whitespace [of "''#top ''" "input []"]
    C5_only_class_strips_trailing_whitespace [of "''.foo  ''" "input []"]
  by (simp add: input_def vStringStripTrailing_def isspace_def)

subsection \<open>C6\<close>

text \<open>
  C6: when the input ends inside an open declaration, exactly one tag with the buffer
  accumulated so far is emitted, the state is \<open>P_STATE_AT_END\<close> and the scan stops.
  First, for \<open>parseScssDeclaration\<close>'s loop with any buffer \<open>name\<close> accumulated so far:
  if no line is left and the rest of the current line continues the declaration, the loop
  appends that rest, emits the one tag (finalised as C5 says), and returns
  \<open>P_STATE_AT_END\<close> with the pointer \<open>NULL\<close>. Second, for the whole scan of a last line
  that is one open declaration: one tag, state \<open>P_STATE_AT_END\<close>, no line left. Third, once
  \<open>parseScssLine\<close> returns \<open>P_STATE_AT_END\<close>, \<open>findScssTags\<close> returns the world as it is:
  no further line is read and no further tag is emitted.
\<close>

theorem C6_end_of_input_in_declaration:
  fixes w :: world
  shows "(pending w = [] \<and> cp \<le> length (cur w)
      \<and> list_all (\<lambda>c. isScssDeclarationAllowedChar c \<and> c \<noteq> NUL \<and> c \<noteq> CHR '','' \<and> c \<noteq> CHR ''{'')
           (drop cp (cur w))
      \<longrightarrow> declLoop w name cp kind =
           (Inr (P_STATE_AT_END, None),
            w\<lparr>tags := tags w @
               [(kind, if kind = K_CLASS then vStringStripTrailing (name @ drop cp (cur w))
                       else name @ drop cp (cur w))]\<rparr>))
   \<and> (pending w = [c # cs] \<and> (isalnum c \<or> c = CHR ''.'' \<or> c = CHR ''#'')
      \<and> list_all (\<lambda>c. isScssDeclarationAllowedChar c \<and> c \<noteq> NUL \<and> c \<noteq> CHR '','' \<and> c \<noteq> CHR ''{'')
           (c # cs)
      \<longrightarrow> findScssLoop w P_STATE_NONE =
           (Inr P_STATE_AT_END,
            w\<lparr>cur := c # cs, pending := [],
              tags := tags w @
               [if isalnum c then (K_SELECTOR, c # cs)
                else if c = CHR ''.'' then (K_CLASS, vStringStripTrailing (c # cs))
                else (K_ID, c # cs)]\<rparr>))
   \<and> (fileReadLine w = (Some line, w1) \<and> parseScssLine w1 line state = (Inr P_STATE_AT_END, w2)
      \<longrightarrow> findScssLoop w state = (Inr P_STATE_AT_END, w2))"
proof (intro conjI impI)
  assume a: "pending w = [] \<and> cp \<le> length (cur w)
      \<and> list_all (\<lambda>c. isScssDeclarationAllowedChar c \<and> c \<noteq> NUL \<and> c \<noteq> CHR '','' \<and> c \<noteq> CHR ''{'')
           (drop cp (cur w))"
  then show "declLoop w name cp kind =
           (Inr (P_STATE_AT_END, None),
            w\<lparr>tags := tags w @
               [(kind, if kind = K_CLASS then vStringStripTrailing (name @ drop cp (cur w))
                       else name @ drop cp (cur w))]\<rparr>)"
    by (simp add: declLoop_run makeScssSimpleTag_def makeSimpleTag_def)
next
  assume a: "pending w = [c # cs] \<and> (isalnum c \<or> c = CHR ''.'' \<or> c = CHR ''#'')
      \<and> list_all (\<lambda>c. isScssDeclarationAllowedChar c \<and> c \<noteq> NUL \<and> c \<noteq> CHR '','' \<and> c \<noteq> CHR ''{'')
           (c # cs)"
  define w1 where "w1 = w\<lparr>cur := c # cs, pending := []\<rparr>"
  define kind where
    "kind = (if isalnum c then K_SELECTOR else if c = CHR ''.'' then K_CLASS else K_ID)"
  have c: "peek (cur w1) 0 = Inr c" by (simp add: w1_def peek_def)
  from a have nn: "c \<noteq> NUL" by simp
  from a have ns: "\<not> isspace c" by (auto simp: isspace_def isalnum_def)
  from c ns have sk: "skipSpace (cur w1) 0 = Inr 0" by (rule skipSpace_stay)
  have run: "declLoop w1 [] 0 kind =
      (Inr (P_STATE_AT_END, None), makeScssSimpleTag ([] @ drop 0 (cur w1)) kind w1)"
    using a by (intro declLoop_run) (simp_all add: w1_def)
  have "caseNone w1 0 P_STATE_NONE = callDeclaration (parseScssDeclaration w1 0 kind)"
    using a c by (auto simp: caseNone_def kind_def)
  with run have sw: "scssSwitch w1 0 P_STATE_NONE =
      (Inr (Break P_STATE_AT_END None), makeScssSimpleTag (c # cs) kind w1)"
    by (simp add: callDeclaration_def parseScssDeclaration_def w1_def)
  have "parseScssLine w1 0 P_STATE_NONE = (Inr P_STATE_AT_END, makeScssSimpleTag (c # cs) kind w1)"
    using c nn sk sw by (rule parseScssLine_null)
  moreover have "findScssLoop w P_STATE_NONE =
     (case parseScssLine w1 0 P_STATE_NONE of
        (Inl f, w'') \<Rightarrow> (Inl f, w'')
      | (Inr st, w'') \<Rightarrow>
          if st = P_STATE_AT_END then (Inr st, w'') else findScssLoop w'' st)"
    using a unfolding w1_def by (intro findScssLoop_line) simp
  ultimately have "findScssLoop w P_STATE_NONE =
      (Inr P_STATE_AT_END, makeScssSimpleTag (c # cs) kind w1)"
    by simp
  then show "findScssLoop w P_STATE_NONE =
           (Inr P_STATE_AT_END,
            w\<lparr>cur := c # cs, pending := [],
              tags := tags w @
               [if isalnum c then (K_SELECTOR, c # cs)
                else if c = CHR ''.'' then (K_CLASS, vStringStripTrailing (c # cs))
                else (K_ID, c # cs)]\<rparr>)"
    using a by (auto simp: makeScssSimpleTag_def makeSimpleTag_def w1_def kind_def isalnum_def)
next
  assume "fileReadLine w = (Some line, w1) \<and>
     parseScssLine w1 line state = (Inr P_STATE_AT_END, w2)"
  then show "findScssLoop w state = (Inr P_STATE_AT_END, w2)"
    by (simp add: findScssLoop.simps [of w])
qed

theorem C6_witness:
  "findScssLoop (input [''.foo > a  '']) P_STATE_NONE =
     (Inr P_STATE_AT_END,
      \<lparr>cur = ''.foo > a  '', pending = [], tags = [(K_CLASS, ''.foo > a'')]\<rparr>)
   \<and> declLoop \<lparr>cur = ''span'', pending = [], tags = []\<rparr> ''p > '' 0 K_SELECTOR =
     (Inr (P_STATE_AT_END, None),
      \<lparr>cur = ''span'', pending = [], tags = [(K_SELECTOR, ''p > span'')]\<rparr>)
   \<and> findScssLoop (input [''p >'', ''span'']) P_STATE_NONE =
     (Inr P_STATE_AT_END,
      \<lparr>cur = ''span'', pending = [], tags = [(K_SELECTOR, ''p >span'')]\<rparr>)"
proof -
  have 1: "fileReadLine (input [''p >'', ''span'']) =
      (Some 0, \<lparr>cur = ''p >'', pending = [''span''], tags = []\<rparr>)"
    by (simp add: fileReadLine_def input_def)
  have 2: "parseScssLine \<lparr>cur = ''p >'', pending = [''span''], tags = []\<rparr> 0 P_STATE_NONE =
      (Inr P_STATE_AT_END, \<lparr>cur = ''span'', pending = [], tags = [(K_SELECTOR, ''p >span'')]\<rparr>)"
    by code_simp
  show ?thesis
    using C6_end_of_input_in_declaration
        [of "input [''.foo > a  '']" 0 "[]" K_CLASS "CHR ''.''" "''foo > a  ''"]
      C6_end_of_input_in_declaration
        [of "\<lparr>cur = ''span'', pending = [], tags = []\<rparr>" 0 "''p > ''" K_SELECTOR]
      C6_end_of_input_in_declaration
        [of "input [''p >'', ''span'']" 0 "[]" K_SELECTOR _ _ 0
            "\<lparr>cur = ''p >'', pending = [''span''], tags = []\<rparr>" P_STATE_NONE
            "\<lparr>cur = ''span'', pending = [], tags = [(K_SELECTOR, ''p >span'')]\<rparr>"]
      1 2
    by (simp add: input_def isScssDeclarationAllowedChar_def isalnum_def isspace_def
        vStringStripTrailing_def)
qed

subsection \<open>C7\<close>

text \<open>
  C7 says that in state \<open>P_STATE_NONE\<close> an \<open>@\<close> makes the following run of non-whitespace
  characters the keyword, and that \<open>media\<close>, \<open>import\<close>, \<open>namespace\<close>, \<open>page\<close> and
  \<open>font-face\<close> are matched. The keyword loop stops only at a whitespace character, not at
  the terminator: when the run of non-whitespace characters after the \<open>@\<close> reaches the end
  of the line (as in a line that is just \<open>@media\<close> or \<open>@font-face\<close>), the loop reads
  beyond the line, and neither the \<open>switch\<close> nor \<open>parseScssLine\<close> yields a state. The rest
  of C7 holds: when a whitespace character follows the run \<open>kw\<close> on the line, the pointer
  is left on it and the state is given by exact (case-sensitive) comparison: \<open>media\<close>
  gives \<open>P_STATE_IN_MEDIA\<close>, \<open>import\<close> and \<open>namespace\<close> give \<open>P_STATE_IN_IMPORT\<close> and
  \<open>P_STATE_IN_NAMESPACE\<close>, \<open>page\<close> and \<open>font-face\<close> give \<open>P_STATE_IN_PAGE\<close> and
  \<open>P_STATE_IN_FONTFACE\<close>, any other keyword leaves \<open>P_STATE_NONE\<close>, and the scan of the
  line goes on in that state after the whitespace character. In the states
  \<open>P_STATE_IN_PAGE\<close> and \<open>P_STATE_IN_FONTFACE\<close> the \<open>switch\<close> does what it does in
  \<open>P_STATE_IN_DEFINITION\<close>, except that a character that changes nothing leaves the state
  it found.
\<close>

theorem C7_keyword_at_line_end_reads_past_end:
  "(drop line (cur w) = CHR ''@'' # kw \<and> list_all (\<lambda>c. \<not> isspace c) kw \<longrightarrow>
      scssSwitch w line P_STATE_NONE = (Inl ReadPastEnd, w)
      \<and> parseScssLine w line P_STATE_NONE = (Inl ReadPastEnd, w))
   \<and> (drop line (cur w) = CHR ''@'' # kw @ s # rest
      \<and> list_all (\<lambda>c. \<not> isspace c \<and> c \<noteq> NUL) kw \<and> isspace s \<longrightarrow>
      scssSwitch w line P_STATE_NONE =
        (Inr (Break (if kw = ''media'' then P_STATE_IN_MEDIA
                     else if kw = ''import'' then P_STATE_IN_IMPORT
                     else if kw = ''namespace'' then P_STATE_IN_NAMESPACE
                     else if kw = ''page'' then P_STATE_IN_PAGE
                     else if kw = ''font-face'' then P_STATE_IN_FONTFACE
                     else P_STATE_NONE) (Some (line + 1 + length kw))), w)
      \<and> parseScssLine w line P_STATE_NONE =
          parseScssLine w (line + length kw + 2)
            (if kw = ''media'' then P_STATE_IN_MEDIA
             else if kw = ''import'' then P_STATE_IN_IMPORT
             else if kw = ''namespace'' then P_STATE_IN_NAMESPACE
             else if kw = ''page'' then P_STATE_IN_PAGE
             else if kw = ''font-face'' then P_STATE_IN_FONTFACE
             else P_STATE_NONE))
   \<and> (\<forall>w' l. scssSwitch w' l P_STATE_IN_PAGE =
          (case scssSwitch w' l P_STATE_IN_DEFINITION of
             (Inr (Break st p), w'') \<Rightarrow>
               (Inr (Break (if st = P_STATE_IN_DEFINITION then P_STATE_IN_PAGE else st) p), w'')
           | r \<Rightarrow> r)
        \<and> scssSwitch w' l P_STATE_IN_FONTFACE =
          (case scssSwitch w' l P_STATE_IN_DEFINITION of
             (Inr (Break st p), w'') \<Rightarrow>
               (Inr (Break (if st = P_STATE_IN_DEFINITION then P_STATE_IN_FONTFACE else st) p), w'')
           | r \<Rightarrow> r))"
proof -
  have over: "scssSwitch w line P_STATE_NONE = (Inl ReadPastEnd, w)
      \<and> parseScssLine w line P_STATE_NONE = (Inl ReadPastEnd, w)"
    if a: "drop line (cur w) = CHR ''@'' # kw \<and> list_all (\<lambda>c. \<not> isspace c) kw"
  proof -
    from a have at: "peek (cur w) line = Inr (CHR ''@'')" by (simp add: peek_drop)
    from a have d: "drop (Suc line) (cur w) = kw" by (simp add: drop_Suc_tail)
    from a have "line < length (cur w)" by (cases "line < length (cur w)") auto
    then have "Suc line \<le> length (cur w)" by simp
    moreover from a d have "list_all (\<lambda>c. \<not> isspace c) (drop (Suc line) (cur w))" by simp
    ultimately have "readKeyword (cur w) [] (Suc line) = Inl ReadPastEnd"
      by (rule readKeyword_no_space)
    with at have sw: "scssSwitch w line P_STATE_NONE = (Inl ReadPastEnd, w)"
      by (simp add: caseNone_def isalnum_def)
    from at have sk: "skipSpace (cur w) line = Inr line"
      by (rule skipSpace_stay) (simp add: isspace_def)
    from at _ sk sw have "parseScssLine w line P_STATE_NONE = (Inl ReadPastEnd, w)"
      by (rule parseScssLine_switch_fault) simp
    with sw show ?thesis by simp
  qed
  have found: "scssSwitch w line P_STATE_NONE =
        (Inr (Break (if kw = ''media'' then P_STATE_IN_MEDIA
                     else if kw = ''import'' then P_STATE_IN_IMPORT
                     else if kw = ''namespace'' then P_STATE_IN_NAMESPACE
                     else if kw = ''page'' then P_STATE_IN_PAGE
                     else if kw = ''font-face'' then P_STATE_IN_FONTFACE
                     else P_STATE_NONE) (Some (line + 1 + length kw))), w)
      \<and> parseScssLine w line P_STATE_NONE =
          parseScssLine w (line + length kw + 2)
            (if kw = ''media'' then P_STATE_IN_MEDIA
             else if kw = ''import'' then P_STATE_IN_IMPORT
             else if kw = ''namespace'' then P_STATE_IN_NAMESPACE
             else if kw = ''page'' then P_STATE_IN_PAGE
             else if kw = ''font-face'' then P_STATE_IN_FONTFACE
             else P_STATE_NONE)"
    if a: "drop line (cur w) = CHR ''@'' # kw @ s # rest
      \<and> list_all (\<lambda>c. \<not> isspace c \<and> c \<noteq> NUL) kw \<and> isspace s"
  proof -
    from a have d0: "drop line (cur w) = CHR ''@'' # kw @ s # rest" by simp
    from d0 have at: "peek (cur w) line = Inr (CHR ''@'')" by (rule peek_drop)
    from d0 have d: "drop (Suc line) (cur w) = kw @ s # rest" by (rule drop_Suc_tail)
    from a have ns: "list_all (\<lambda>c. \<not> isspace c) kw" and nn: "list_all (\<lambda>c. c \<noteq> NUL) kw"
      by (simp_all add: list_all_iff)
    from a have sp: "isspace s" by simp
    from d sp ns
    have "readKeyword (cur w) [] (Suc line) = Inr ([] @ kw, Suc line + length kw)"
      by (rule readKeyword_run)
    with at have "scssSwitch w line P_STATE_NONE =
        (Inr (Break (directive kw P_STATE_NONE) (Some (line + 1 + length kw))), w)"
      by (simp add: caseNone_def isalnum_def)
    then have first: "scssSwitch w line P_STATE_NONE =
        (Inr (Break (if kw = ''media'' then P_STATE_IN_MEDIA
                     else if kw = ''import'' then P_STATE_IN_IMPORT
                     else if kw = ''namespace'' then P_STATE_IN_NAMESPACE
                     else if kw = ''page'' then P_STATE_IN_PAGE
                     else if kw = ''font-face'' then P_STATE_IN_FONTFACE
                     else P_STATE_NONE) (Some (line + 1 + length kw))), w)"
      by (simp only: directive_no_NUL [OF nn])
    note resume = at_rule_resume [OF d0 first]
    from first resume show ?thesis by blast
  qed
  have second: "scssSwitch w' l P_STATE_IN_PAGE =
          (case scssSwitch w' l P_STATE_IN_DEFINITION of
             (Inr (Break st p), w'') \<Rightarrow>
               (Inr (Break (if st = P_STATE_IN_DEFINITION then P_STATE_IN_PAGE else st) p), w'')
           | r \<Rightarrow> r)
        \<and> scssSwitch w' l P_STATE_IN_FONTFACE =
          (case scssSwitch w' l P_STATE_IN_DEFINITION of
             (Inr (Break st p), w'') \<Rightarrow>
               (Inr (Break (if st = P_STATE_IN_DEFINITION then P_STATE_IN_FONTFACE else st) p), w'')
           | r \<Rightarrow> r)" for w' l
    by (cases "peek (cur w') l") (simp_all add: caseDefinition_def)
  from over found second show ?thesis by blast
qed

theorem C7_witness:
  "findScssTags (input [''@media'', ''screen {'']) =
     (Inl ReadPastEnd, \<lparr>cur = ''@media'', pending = [''screen {''], tags = []\<rparr>)
   \<and> scssSwitch \<lparr>cur = ''@media'', pending = [''screen {''], tags = []\<rparr> 0 P_STATE_NONE =
     (Inl ReadPastEnd, \<lparr>cur = ''@media'', pending = [''screen {''], tags = []\<rparr>)
   \<and> scssSwitch \<lparr>cur = ''@font-face'', pending = [''{''], tags = []\<rparr> 0 P_STATE_NONE =
     (Inl ReadPastEnd, \<lparr>cur = ''@font-face'', pending = [''{''], tags = []\<rparr>)
   \<and> scssSwitch \<lparr>cur = ''@media screen {'', pending = [], tags = []\<rparr> 0 P_STATE_NONE =
     (Inr (Break P_STATE_IN_MEDIA (Some 6)), \<lparr>cur = ''@media screen {'', pending = [], tags = []\<rparr>)
   \<and> scssSwitch \<lparr>cur = ''@Media screen {'', pending = [], tags = []\<rparr> 0 P_STATE_NONE =
     (Inr (Break P_STATE_NONE (Some 6)), \<lparr>cur = ''@Media screen {'', pending = [], tags = []\<rparr>)
   \<and> scssSwitch \<lparr>cur = ''@font-face {'', pending = [], tags = []\<rparr> 0 P_STATE_NONE =
     (Inr (Break P_STATE_IN_FONTFACE (Some 10)), \<lparr>cur = ''@font-face {'', pending = [], tags = []\<rparr>)"
proof -
  have "findScssTags (input [''@media'', ''screen {'']) =
     (Inl ReadPastEnd, \<lparr>cur = ''@media'', pending = [''screen {''], tags = []\<rparr>)"
    by code_simp
  then show ?thesis
    using C7_keyword_at_line_end_reads_past_end
        [of 0 "\<lparr>cur = ''@media'', pending = [''screen {''], tags = []\<rparr>" "''media''"]
      C7_keyword_at_line_end_reads_past_end
        [of 0 "\<lparr>cur = ''@font-face'', pending = [''{''], tags = []\<rparr>" "''font-face''"]
      C7_keyword_at_line_end_reads_past_end
        [of 0 "\<lparr>cur = ''@media screen {'', pending = [], tags = []\<rparr>" "''media''" "CHR '' ''"
            "''screen {''"]
      C7_keyword_at_line_end_reads_past_end
        [of 0 "\<lparr>cur = ''@Media screen {'', pending = [], tags = []\<rparr>" "''Media''" "CHR '' ''"
            "''screen {''"]
      C7_keyword_at_line_end_reads_past_end
        [of 0 "\<lparr>cur = ''@font-face {'', pending = [], tags = []\<rparr>" "''font-face''" "CHR '' ''"
            "''{''"]
    by (simp add: isspace_def)
qed

subsection \<open>C8\<close>

text \<open>
  C8 says that a line without \<open>{\<close> leaves the state \<open>P_STATE_IN_MEDIA\<close> for the next line.
  The scan of the case \<open>P_STATE_IN_MEDIA\<close> stops on the terminator with the state unchanged,
  but the \<open>line++\<close> after the \<open>switch\<close> then steps over the terminator and the loop test
  reads beyond the line: from any position of a line whose rest has no \<open>{\<close>,
  \<open>parseScssLine\<close> in state \<open>P_STATE_IN_MEDIA\<close> ends in that read and returns no state.
  The other half of C8 holds: when the rest of the line has a \<open>{\<close>, the case leaves the
  pointer on the first one and the state is \<open>P_STATE_NONE\<close>.
\<close>

theorem C8_media_line_without_brace_reads_past_end:
  "(line < length (cur w) \<and> CHR ''{'' \<notin> set (drop line (cur w))
      \<and> NUL \<notin> set (drop line (cur w))
      \<longrightarrow> parseScssLine w line P_STATE_IN_MEDIA = (Inl ReadPastEnd, w))
   \<and> (drop line (cur w) = pre @ CHR ''{'' # rest \<and> list_all (\<lambda>c. c \<noteq> CHR ''{'' \<and> c \<noteq> NUL) pre
      \<longrightarrow> scssSwitch w line P_STATE_IN_MEDIA =
           (Inr (Break P_STATE_NONE (Some (line + length pre))), w))"
proof (intro conjI impI)
  assume a: "line < length (cur w) \<and> CHR ''{'' \<notin> set (drop line (cur w))
      \<and> NUL \<notin> set (drop line (cur w))"
  let ?buf = "cur w"
  from a have c: "peek ?buf line = Inr (?buf ! line)" by (simp add: peek_def)
  from a have nn: "?buf ! line \<noteq> NUL"
    by (metis in_set_conv_nth Cons_nth_drop_Suc list.set_intros(1))
  obtain line1 where sk: "skipSpace ?buf line = Inr line1"
    using skipSpace_total [of line ?buf] a by auto
  then have b: "line \<le> line1" "line1 \<le> length ?buf"
    by (auto dest: skipSpace_bounds)
  then have "set (drop line1 ?buf) \<subseteq> set (drop line ?buf)"
    by (simp add: set_drop_subset_set_drop)
  with a
  have tw: "takeWhile (\<lambda>c. c \<noteq> CHR ''{'' \<and> c \<noteq> NUL) (drop line1 ?buf) = drop line1 ?buf"
    by (auto simp: takeWhile_eq_all_conv)
  have "skipTo (CHR ''{'') ?buf line1 = Inr (line1 + length (drop line1 ?buf))"
    using skipTo_run [OF b(2), of "CHR ''{''"] unfolding tw .
  with b have "skipTo (CHR ''{'') ?buf line1 = Inr (length ?buf)"
    by simp
  then have sw: "scssSwitch w line1 P_STATE_IN_MEDIA =
      (Inr (Break P_STATE_IN_MEDIA (Some (length ?buf))), w)"
    by (simp add: caseSkip_def peek_length)
  have "parseScssLine w (length ?buf + 1) P_STATE_IN_MEDIA = (Inl ReadPastEnd, w)"
    by (simp add: parseScssLine_fault peek_beyond)
  with parseScssLine_next [OF c nn sk sw]
  show "parseScssLine w line P_STATE_IN_MEDIA = (Inl ReadPastEnd, w)" by simp
next
  assume a: "drop line (cur w) = pre @ CHR ''{'' # rest
      \<and> list_all (\<lambda>c. c \<noteq> CHR ''{'' \<and> c \<noteq> NUL) pre"
  then have le: "line \<le> length (cur w)"
    by (cases "line \<le> length (cur w)") auto
  from a have tw: "takeWhile (\<lambda>c. c \<noteq> CHR ''{'' \<and> c \<noteq> NUL) (drop line (cur w)) = pre"
    by (simp add: takeWhile_append2 list_all_iff)
  have st: "skipTo (CHR ''{'') (cur w) line = Inr (line + length pre)"
    using skipTo_run [OF le, of "CHR ''{''"] unfolding tw .
  from a have "drop (line + length pre) (cur w) = CHR ''{'' # rest"
    by (metis add.commute append_eq_conv_conj drop_drop)
  then have "peek (cur w) (line + length pre) = Inr (CHR ''{'')"
    by (rule peek_drop)
  with st show "scssSwitch w line P_STATE_IN_MEDIA =
           (Inr (Break P_STATE_NONE (Some (line + length pre))), w)"
    by (simp add: caseSkip_def)
qed

theorem C8_witness:
  "findScssTags (input [''@media screen'', ''{'']) =
     (Inl ReadPastEnd, \<lparr>cur = ''@media screen'', pending = [''{''], tags = []\<rparr>)
   \<and> parseScssLine \<lparr>cur = ''@media screen'', pending = [''{''], tags = []\<rparr> 7 P_STATE_IN_MEDIA =
     (Inl ReadPastEnd, \<lparr>cur = ''@media screen'', pending = [''{''], tags = []\<rparr>)
   \<and> scssSwitch \<lparr>cur = ''@media screen {'', pending = [], tags = []\<rparr> 7 P_STATE_IN_MEDIA =
     (Inr (Break P_STATE_NONE (Some 14)), \<lparr>cur = ''@media screen {'', pending = [], tags = []\<rparr>)"
proof -
  have "findScssTags (input [''@media screen'', ''{'']) =
     (Inl ReadPastEnd, \<lparr>cur = ''@media screen'', pending = [''{''], tags = []\<rparr>)"
    by code_simp
  then show ?thesis
    using C8_media_line_without_brace_reads_past_end
      [of 7 "\<lparr>cur = ''@media screen'', pending = [''{''], tags = []\<rparr>" "[]" "[]"]
      C8_media_line_without_brace_reads_past_end
      [of 7 "\<lparr>cur = ''@media screen {'', pending = [], tags = []\<rparr>" "''screen ''" "[]"]
    by simp
qed

subsection \<open>C9\<close>

text \<open>
  C9: in a string state, at a character of the line that has a character before it (or is
  not the quote), the state becomes \<open>P_STATE_IN_DEFINITION\<close> exactly when the character is
  the quote of that state and the character before it is not a backslash; otherwise the
  state, the pointer and the tags stay as they are. In particular a quote after a backslash
  does not end the string. Along a line: if the first quote of the state's kind that is not
  preceded by a backslash is at index \<open>k\<close>, the scan from \<open>line\<close> in the string state
  goes on after \<open>k\<close> in \<open>P_STATE_IN_DEFINITION\<close>, with no tag emitted on the way.
\<close>

theorem C9_string_ends_at_unescaped_quote:
  assumes "(state, q) \<in> {(P_STATE_IN_SINGLE_STRING, CHR 0x27), (P_STATE_IN_DOUBLE_STRING, CHR 0x22)}"
  shows "(line < length (cur w) \<and> (0 < line \<or> cur w ! line \<noteq> q) \<longrightarrow>
        scssSwitch w line state =
          (Inr (Break (if cur w ! line = q \<and> cur w ! (line - 1) \<noteq> CHR 0x5C
                       then P_STATE_IN_DEFINITION else state) (Some line)), w))
   \<and> (0 < line \<and> line \<le> k \<and> k < length (cur w)
      \<and> (\<forall>i. line \<le> i \<and> i < k \<longrightarrow>
             cur w ! i \<noteq> NUL \<and> \<not> (cur w ! i = q \<and> cur w ! (i - 1) \<noteq> CHR 0x5C))
      \<and> cur w ! k = q \<and> cur w ! (k - 1) \<noteq> CHR 0x5C \<longrightarrow>
        parseScssLine w line state = parseScssLine w (k + 1) P_STATE_IN_DEFINITION)"
proof (intro conjI impI)
  assume "line < length (cur w) \<and> (0 < line \<or> cur w ! line \<noteq> q)"
  with assms show "scssSwitch w line state =
          (Inr (Break (if cur w ! line = q \<and> cur w ! (line - 1) \<noteq> CHR 0x5C
                       then P_STATE_IN_DEFINITION else state) (Some line)), w)"
    by (auto simp: caseString_def peek_def peekPrev_def)
next
  assume a: "0 < line \<and> line \<le> k \<and> k < length (cur w)
      \<and> (\<forall>i. line \<le> i \<and> i < k \<longrightarrow>
             cur w ! i \<noteq> NUL \<and> \<not> (cur w ! i = q \<and> cur w ! (i - 1) \<noteq> CHR 0x5C))
      \<and> cur w ! k = q \<and> cur w ! (k - 1) \<noteq> CHR 0x5C"
  show "parseScssLine w line state = parseScssLine w (k + 1) P_STATE_IN_DEFINITION"
    by (rule string_scan_to_quote [OF assms]) (use a in simp_all)
qed

theorem C9_witness:
  "scssSwitch
     \<lparr>cur = [CHR ''a'', CHR 0x5C, CHR 0x27, CHR ''b'', CHR 0x27, CHR ''c''],
      pending = [], tags = []\<rparr> 2 P_STATE_IN_SINGLE_STRING =
     (Inr (Break P_STATE_IN_SINGLE_STRING (Some 2)),
      \<lparr>cur = [CHR ''a'', CHR 0x5C, CHR 0x27, CHR ''b'', CHR 0x27, CHR ''c''],
       pending = [], tags = []\<rparr>)
   \<and> scssSwitch
     \<lparr>cur = [CHR ''a'', CHR 0x5C, CHR 0x27, CHR ''b'', CHR 0x27, CHR ''c''],
      pending = [], tags = []\<rparr> 4 P_STATE_IN_SINGLE_STRING =
     (Inr (Break P_STATE_IN_DEFINITION (Some 4)),
      \<lparr>cur = [CHR ''a'', CHR 0x5C, CHR 0x27, CHR ''b'', CHR 0x27, CHR ''c''],
       pending = [], tags = []\<rparr>)
   \<and> parseScssLine
     \<lparr>cur = [CHR ''a'', CHR 0x5C, CHR 0x27, CHR ''b'', CHR 0x27, CHR ''c''],
      pending = [], tags = []\<rparr> 1 P_STATE_IN_SINGLE_STRING =
     parseScssLine
     \<lparr>cur = [CHR ''a'', CHR 0x5C, CHR 0x27, CHR ''b'', CHR 0x27, CHR ''c''],
      pending = [], tags = []\<rparr> 5 P_STATE_IN_DEFINITION"
proof -
  let ?w = "\<lparr>cur = [CHR ''a'', CHR 0x5C, CHR 0x27, CHR ''b'', CHR 0x27, CHR ''c''],
             pending = [], tags = []\<rparr>"
  have q: "(P_STATE_IN_SINGLE_STRING, CHR 0x27) \<in>
      {(P_STATE_IN_SINGLE_STRING, CHR 0x27), (P_STATE_IN_DOUBLE_STRING, CHR 0x22)}"
    by simp
  have h: "\<forall>i. 1 \<le> i \<and> i < 4 \<longrightarrow>
      cur ?w ! i \<noteq> NUL \<and> \<not> (cur ?w ! i = CHR 0x27 \<and> cur ?w ! (i - 1) \<noteq> CHR 0x5C)"
  proof (intro allI impI)
    fix i :: nat
    assume "1 \<le> i \<and> i < 4"
    then have "i = 1 \<or> i = 2 \<or> i = 3" by auto
    then show "cur ?w ! i \<noteq> NUL \<and> \<not> (cur ?w ! i = CHR 0x27 \<and> cur ?w ! (i - 1) \<noteq> CHR 0x5C)"
      by auto
  qed
  show ?thesis
    using C9_string_ends_at_unescaped_quote [OF q, of 2 ?w]
      C9_string_ends_at_unescaped_quote [OF q, of 4 ?w]
      C9_string_ends_at_unescaped_quote [OF q, of 1 ?w 4] h
    by simp
qed

subsection \<open>C10\<close>

text \<open>
  C10: the scan starts in \<open>P_STATE_NONE\<close>, and \<open>P_STATE_AT_END\<close> arises only when the line
  source is exhausted inside a declaration. \<open>findScssTags\<close> starts its loop with
  \<open>P_STATE_NONE\<close>. The loop of \<open>parseScssDeclaration\<close> returns \<open>P_STATE_AT_END\<close> (or the
  pointer \<open>NULL\<close>) only together, with no line left and the declaration's tag just
  emitted. From a state other than \<open>P_STATE_AT_END\<close>, the \<open>switch\<close> never returns, and it
  yields \<open>P_STATE_AT_END\<close> only in state \<open>P_STATE_NONE\<close> through a call of
  \<open>parseScssDeclaration\<close> that returned it; \<open>parseScssLine\<close>, the loop of \<open>findScssTags\<close>
  and \<open>findScssTags\<close> end in \<open>P_STATE_AT_END\<close> only with no line left and at least one tag
  emitted on the way.
\<close>

theorem C10_terminated_only_at_end_of_input_in_declaration:
  assumes "state \<noteq> P_STATE_AT_END"
  shows "findScssTags w = findScssLoop w P_STATE_NONE
   \<and> (\<forall>name cp kind st p w'.
        declLoop w name cp kind = (Inr (st, p), w') \<and> (st = P_STATE_AT_END \<or> p = None) \<longrightarrow>
        st = P_STATE_AT_END \<and> p = None \<and> pending w' = []
        \<and> (\<exists>name'. tags w' = tags w @ [(kind, name')]))
   \<and> (\<forall>line stp w'.
        scssSwitch w line state = (Inr stp, w') \<longrightarrow>
        (\<exists>st p. stp = Break st p \<and>
           (st = P_STATE_AT_END \<longrightarrow>
              state = P_STATE_NONE \<and> p = None
              \<and> (\<exists>kind. parseScssDeclaration w line kind = (Inr (P_STATE_AT_END, None), w')))))
   \<and> (\<forall>line w'.
        parseScssLine w line state = (Inr P_STATE_AT_END, w') \<longrightarrow>
        pending w' = [] \<and> length (tags w) < length (tags w'))
   \<and> (\<forall>w'.
        findScssLoop w state = (Inr P_STATE_AT_END, w') \<longrightarrow>
        pending w' = [] \<and> length (tags w) < length (tags w'))
   \<and> (\<forall>w'.
        findScssTags w = (Inr P_STATE_AT_END, w') \<longrightarrow>
        pending w' = [] \<and> length (tags w) < length (tags w'))"
proof (intro conjI allI impI)
  show "findScssTags w = findScssLoop w P_STATE_NONE"
    by (simp add: findScssTags_def)
next
  fix name cp kind st p w'
  assume a: "declLoop w name cp kind = (Inr (st, p), w') \<and> (st = P_STATE_AT_END \<or> p = None)"
  then have "st = P_STATE_AT_END \<and> p = None \<and> pending w' = []
      \<and> (\<exists>name'. tags w' = tags w @ [(kind, name')])"
    using declLoop_AT_END [of w name cp kind st p w'] by blast
  then show "st = P_STATE_AT_END" "p = None" "pending w' = []"
    "\<exists>name'. tags w' = tags w @ [(kind, name')]"
    by simp_all
next
  fix line stp w'
  assume "scssSwitch w line state = (Inr stp, w')"
  from scssSwitch_AT_END [OF this assms]
  show "\<exists>st p. stp = Break st p \<and>
           (st = P_STATE_AT_END \<longrightarrow>
              state = P_STATE_NONE \<and> p = None
              \<and> (\<exists>kind. parseScssDeclaration w line kind = (Inr (P_STATE_AT_END, None), w')))"
    by blast
next
  fix line w'
  assume "parseScssLine w line state = (Inr P_STATE_AT_END, w')"
  from parseScssLine_AT_END [OF this assms]
  show "pending w' = []" "length (tags w) < length (tags w')"
    by simp_all
next
  fix w'
  assume "findScssLoop w state = (Inr P_STATE_AT_END, w')"
  from findScssLoop_AT_END [OF this assms]
  show "pending w' = []" "length (tags w) < length (tags w')"
    by simp_all
next
  fix w'
  assume "findScssTags w = (Inr P_STATE_AT_END, w')"
  then have "findScssLoop w P_STATE_NONE = (Inr P_STATE_AT_END, w')"
    by (simp add: findScssTags_def)
  from findScssLoop_AT_END [OF this]
  show "pending w' = []" "length (tags w) < length (tags w')"
    by simp_all
qed

theorem C10_witness:
  "P_STATE_IN_DEFINITION \<noteq> P_STATE_AT_END
   \<and> findScssTags (input [''a { b: c }'', ''.foo'']) =
       (Inr P_STATE_AT_END,
        \<lparr>cur = ''.foo'', pending = [], tags = [(K_SELECTOR, ''a ''), (K_CLASS, ''.foo'')]\<rparr>)
   \<and> pending \<lparr>cur = ''.foo'', pending = [], tags = [(K_SELECTOR, ''a ''), (K_CLASS, ''.foo'')]\<rparr>
       = []
   \<and> length (tags (input [''a { b: c }'', ''.foo''])) <
       length (tags \<lparr>cur = ''.foo'', pending = [],
                     tags = [(K_SELECTOR, ''a ''), (K_CLASS, ''.foo'')]\<rparr>)"
proof -
  have e: "findScssTags (input [''a { b: c }'', ''.foo'']) =
       (Inr P_STATE_AT_END,
        \<lparr>cur = ''.foo'', pending = [], tags = [(K_SELECTOR, ''a ''), (K_CLASS, ''.foo'')]\<rparr>)"
    by code_simp
  have n: "P_STATE_IN_DEFINITION \<noteq> P_STATE_AT_END" by simp
  show ?thesis
    using C10_terminated_only_at_end_of_input_in_declaration
      [OF n, of "input [''a { b: c }'', ''.foo'']"] e
    by (simp add: input_def)
qed

end
